theory Spec2Isabelle
  imports Complex_Main "HOL-Library.Word"
begin

section \<open>Errors of the host binding layer and of the libraries\<close>

text \<open>
  Every C++ exception that can leave the functions of \<^verbatim>\<open>utils.h\<close> and
  \<^verbatim>\<open>utils.cpp\<close> is a value of this type:
  \<^item> \<open>not_compatible\<close>: the exception of \<^verbatim>\<open>Rcpp::as<T>\<close> for a host value that is
    not convertible to \<open>T\<close>;
  \<^item> \<open>length_error\<close>: \<^verbatim>\<open>std::length_error\<close>, thrown by \<^verbatim>\<open>std::vector::reserve\<close>
    for a request above \<^verbatim>\<open>max_size()\<close>;
  \<^item> \<open>logic_error\<close>: \<^verbatim>\<open>std::logic_error\<close>, thrown by Armadillo's size checks.
\<close>

datatype error = not_compatible | length_error | logic_error

section \<open>Narrowing to \<^verbatim>\<open>int\<close>\<close>

text \<open>
  \<^verbatim>\<open>int n = l.size();\<close> and \<^verbatim>\<open>return std::distance(first, it);\<close> (return type
  \<^verbatim>\<open>int\<close>) convert a 64-bit signed value (\<^verbatim>\<open>R_xlen_t\<close>, \<^verbatim>\<open>std::ptrdiff_t\<close>)
  to the 32-bit \<^verbatim>\<open>int\<close>: the low 32 bits are kept and read as two's complement.
\<close>

definition to_int :: "int \<Rightarrow> int" where
  "to_int d = sint (word_of_int d :: 32 word)"

section \<open>Doubles\<close>

text \<open>
  A \<^verbatim>\<open>double\<close> is NaN, one of the two infinities or a finite number (the two zeros
  compare equal and are one value here). \<open>dlt\<close>, \<open>dgt\<close>, \<open>deq\<close> and \<open>dle\<close> are the
  operators \<^verbatim>\<open><\<close>, \<^verbatim>\<open>>\<close>, \<^verbatim>\<open>==\<close> and \<^verbatim>\<open><=\<close> of IEEE 754: every comparison
  with NaN is false, also of NaN with itself.
\<close>

datatype double = NaN | NegInf | Fin real | PosInf

fun dlt :: "double \<Rightarrow> double \<Rightarrow> bool" where
  "dlt NaN b = False"
| "dlt a NaN = False"
| "dlt a NegInf = False"
| "dlt NegInf b = True"
| "dlt PosInf b = False"
| "dlt (Fin a) PosInf = True"
| "dlt (Fin a) (Fin b) = (a < b)"

definition dgt :: "double \<Rightarrow> double \<Rightarrow> bool" where
  "dgt a b = dlt b a"

definition deq :: "double \<Rightarrow> double \<Rightarrow> bool" where
  "deq a b \<longleftrightarrow> a \<noteq> NaN \<and> b \<noteq> NaN \<and> a = b"

definition dle :: "double \<Rightarrow> double \<Rightarrow> bool" where
  "dle a b \<longleftrightarrow> dlt a b \<or> deq a b"

section \<open>Matrices\<close>

text \<open>
  A matrix of Armadillo: the number of rows, the number of columns and the elements
  in column-major order, as Armadillo stores them. \<^verbatim>\<open>arma::mat\<close> is \<open>double mat\<close>.
\<close>

record 'a mat =
  n_rows :: nat
  n_cols :: nat
  mem :: "'a list"

definition wf_mat :: "'a mat \<Rightarrow> bool" where
  "wf_mat x \<longleftrightarrow> length (mem x) = n_rows x * n_cols x"

text \<open>\<^verbatim>\<open>x.colptr(col)[row]\<close>, the element at row \<open>row\<close> and column \<open>col\<close>.\<close>

definition mat_at :: "'a mat \<Rightarrow> nat \<Rightarrow> nat \<Rightarrow> 'a" where
  "mat_at x row col = mem x ! (col * n_rows x + row)"

definition mat_row :: "'a mat \<Rightarrow> nat \<Rightarrow> 'a list" where
  "mat_row x row = map (mat_at x row) [0..<n_cols x]"

section \<open>The Armadillo routines behind the row reductions\<close>

text \<open>
  Modelled from the spec: \<^verbatim>\<open>arma::max(x, 1)\<close> is a routine of the Armadillo library,
  which is not under \<^verbatim>\<open>src/\<close>. The spec (4.2) says what it returns: one value per row,
  `each equal to the maximum value found in that row'. The definition is the scan with
  which Armadillo computes it (\<^verbatim>\<open>op_max::apply_noalias\<close>, \<open>dim = 1\<close>), on doubles with
  their own comparison:
  \<^verbatim>\<open>
  out.set_size(X_n_rows, (X_n_cols > 0) ? 1 : 0);
  if (X_n_cols == 0) return;
  copy(out_mem, X.colptr(0), X_n_rows);
  for (uword col = 1; col < X_n_cols; ++col) {
    const eT* col_mem = X.colptr(col);
    for (uword row = 0; row < X_n_rows; ++row) {
      const eT col_val = col_mem[row];
      if (col_val > out_mem[row]) out_mem[row] = col_val;
    }
  }
  \<close>
  The result is written into the \<^verbatim>\<open>arma::colvec\<close> that \<open>C_rowmax\<close> returns. A column
  vector takes the sizes \<open>R \<times> 1\<close> and \<open>0 \<times> 0\<close> (stored as \<open>0 \<times> 1\<close>); setting it to
  \<open>R \<times> 0\<close> with \<open>R > 0\<close> fails the layout check of \<^verbatim>\<open>Mat::init\<close> with a
  \<^verbatim>\<open>std::logic_error\<close>. None of the properties below depends on this branch.
\<close>

definition op_max_row :: "double mat \<Rightarrow> nat \<Rightarrow> nat \<Rightarrow> double list \<Rightarrow> double list" where
  "op_max_row x col row out =
     (let col_val = mat_at x row col
      in if dgt col_val (out ! row) then out[row := col_val] else out)"

definition op_max_col :: "double mat \<Rightarrow> nat \<Rightarrow> double list \<Rightarrow> double list" where
  "op_max_col x col out = fold (op_max_row x col) [0..<n_rows x] out"

definition arma_max_dim1 :: "double mat \<Rightarrow> error + double list" where
  "arma_max_dim1 x =
     (if n_cols x = 0
      then (if n_rows x = 0 then Inr [] else Inl logic_error)
      else Inr (fold (op_max_col x) [1..<n_cols x] (map (\<lambda>row. mat_at x row 0) [0..<n_rows x])))"

text \<open>
  Modelled from the spec: \<^verbatim>\<open>arma::index_max(x, 1)\<close> is a routine of the Armadillo
  library, which is not under \<^verbatim>\<open>src/\<close>. The spec (4.3) says what it returns: one index
  per row, `each the column position of that row's maximum value', with the tie-break
  `whatever the underlying library defines'. The definition is the same scan over the
  columns, keeping for every row the best value so far (\<open>tmp\<close>) and its column
  (\<open>out\<close>): a value greater than the best so far replaces it. Whether a value equal
  to the best so far replaces it is the library's tie-break, the parameter \<open>tie\<close>: for
  a row and a column it says whether the equal value in that place wins. The policy
  that is false everywhere keeps the first of the equal columns, the policy that is
  true everywhere keeps the last.
\<close>

definition op_index_max_row ::
  "(nat \<Rightarrow> nat \<Rightarrow> bool) \<Rightarrow> double mat \<Rightarrow> nat \<Rightarrow> nat \<Rightarrow> double list \<times> nat list
   \<Rightarrow> double list \<times> nat list" where
  "op_index_max_row tie x col row st =
     (let val = mat_at x row col; tmp = fst st; out = snd st
      in if dlt (tmp ! row) val \<or> (deq (tmp ! row) val \<and> tie row col)
         then (tmp[row := val], out[row := col])
         else (tmp, out))"

definition op_index_max_col ::
  "(nat \<Rightarrow> nat \<Rightarrow> bool) \<Rightarrow> double mat \<Rightarrow> nat \<Rightarrow> double list \<times> nat list
   \<Rightarrow> double list \<times> nat list" where
  "op_index_max_col tie x col st = fold (op_index_max_row tie x col) [0..<n_rows x] st"

definition arma_index_max_dim1 :: "(nat \<Rightarrow> nat \<Rightarrow> bool) \<Rightarrow> double mat \<Rightarrow> error + nat list" where
  "arma_index_max_dim1 tie x =
     (if n_cols x = 0
      then (if n_rows x = 0 then Inr [] else Inl logic_error)
      else Inr (snd (fold (op_index_max_col tie x) [1..<n_cols x]
                  (map (\<lambda>row. mat_at x row 0) [0..<n_rows x], replicate (n_rows x) 0))))"

section \<open>The row reductions of \<^verbatim>\<open>utils.cpp\<close>\<close>

text \<open>
  \<^verbatim>\<open>
  arma::colvec C_rowmax(arma::mat x) {
    return arma::max(x, 1);
  }
  arma::ucolvec C_rowmax_index(arma::mat x) {
    return arma::index_max(x,1);
  }
  \<close>
  \<open>C_rowmax_index\<close> has the tie-break of the library it is linked with as a parameter.
\<close>

definition C_rowmax :: "double mat \<Rightarrow> error + double list" where
  "C_rowmax x = arma_max_dim1 x"

definition C_rowmax_index :: "(nat \<Rightarrow> nat \<Rightarrow> bool) \<Rightarrow> double mat \<Rightarrow> error + nat list" where
  "C_rowmax_index tie x = arma_index_max_dim1 tie x"

section \<open>\<^verbatim>\<open>hesim::detail::list_to_vec\<close>\<close>

text \<open>
  A host list (\<^verbatim>\<open>Rcpp::List\<close>) is the list of its elements, host values of a type
  \<open>'s\<close>. The element converter \<^verbatim>\<open>Rcpp::as<T2>\<close> is the parameter \<open>as_T2\<close> (the
  template parameter \<open>T2\<close> chooses it): it returns the converted element, or the
  exception it throws for a host value that is not convertible to \<open>T2\<close>.

  \<^verbatim>\<open>v.reserve(n)\<close> takes a \<^verbatim>\<open>size_type\<close>: a negative \<open>n\<close> converts to a value of
  at least \<open>2^64 - 2^31\<close>, above \<^verbatim>\<open>max_size()\<close> of any vector, and \<open>reserve\<close> throws
  \<^verbatim>\<open>std::length_error\<close>; a non-negative \<open>n\<close> is below \<open>2^31\<close> and is accepted.
\<close>

definition vector_reserve :: "int \<Rightarrow> error + unit" where
  "vector_reserve n = (if n < 0 then Inl length_error else Inr ())"

text \<open>
  \<^verbatim>\<open>
  template <typename T1, typename T2>
  T1 list_to_vec(Rcpp::List l){
    T1 v;
    int n = l.size();
    v.reserve(n);
    for (int i = 0; i < n; ++i){
      v.push_back(Rcpp::as<T2 >(l[i]));
    }
    return v;
  }
  \<close>
  \<open>l.size()\<close> is an \<^verbatim>\<open>R_xlen_t\<close> (64 bits), narrowed to \<^verbatim>\<open>int\<close>. An exception of
  \<open>as_T2\<close> leaves the loop and the function. In the loop \<open>0 \<le> i < n \<le> l.size()\<close>
  (lemma \<open>list_to_vec_index_in_range\<close>), so \<open>l[i]\<close> reads inside the list and
  \<open>++i\<close> does not overflow.
\<close>

function list_to_vec_loop ::
  "('s \<Rightarrow> error + 'a) \<Rightarrow> 's list \<Rightarrow> int \<Rightarrow> int \<Rightarrow> 'a list \<Rightarrow> error + 'a list" where
  "list_to_vec_loop as_T2 l n i v =
     (if i < n
      then (case as_T2 (l ! nat i) of
              Inl e \<Rightarrow> Inl e
            | Inr y \<Rightarrow> list_to_vec_loop as_T2 l n (i + 1) (v @ [y]))
      else Inr v)"
  by pat_completeness auto
termination
  by (relation "measure (\<lambda>(as_T2, l, n, i, v). nat (n - i))") auto

definition list_to_vec :: "('s \<Rightarrow> error + 'a) \<Rightarrow> 's list \<Rightarrow> error + 'a list" where
  "list_to_vec as_T2 l =
     (let v = [];
          n = to_int (int (length l))
      in case vector_reserve n of
           Inl e \<Rightarrow> Inl e
         | Inr u \<Rightarrow> list_to_vec_loop as_T2 l n 0 v)"

text \<open>
  \<^verbatim>\<open>
  inline hesim::vecmats as(SEXP object) {
    Rcpp::List l = Rcpp::as<Rcpp::List>(object);
    return hesim::detail::list_to_vec<hesim::vecmats, arma::mat>(l);
  }
  \<close>
  \<open>as_List\<close> is \<^verbatim>\<open>Rcpp::as<Rcpp::List>\<close> and \<open>as_mat\<close> is \<^verbatim>\<open>Rcpp::as<arma::mat>\<close>,
  both of the binding layer.
\<close>

definition as_vecmats ::
  "('s \<Rightarrow> error + 's list) \<Rightarrow> ('s \<Rightarrow> error + 'a mat) \<Rightarrow> 's \<Rightarrow> error + 'a mat list" where
  "as_vecmats as_List as_mat object =
     (case as_List object of
        Inl e \<Rightarrow> Inl e
      | Inr l \<Rightarrow> list_to_vec as_mat l)"

text \<open>
  Modelled from the spec: the host values and the converters of the binding layer
  (Rcpp, RcppArmadillo) are not under \<^verbatim>\<open>src/\<close>. The spec (7) says that a conversion
  fails when `an input list element does not match the expected target type'. Host
  values here are numeric matrices and character vectors; only the first match
  \<^verbatim>\<open>arma::mat\<close>.
\<close>

datatype 'a SEXP = NumericMatrix "'a mat" | CharacterVector "string list"

fun as_arma_mat :: "'a SEXP \<Rightarrow> error + 'a mat" where
  "as_arma_mat (NumericMatrix m) = Inr m"
| "as_arma_mat (CharacterVector c) = Inl not_compatible"

section \<open>\<^verbatim>\<open>hesim::max_element_pos\<close>\<close>

text \<open>
  The range \<open>[first, last)\<close> is the list of its elements; an iterator into it is its
  offset from \<open>first\<close>, so \<open>last\<close> is \<open>length xs\<close>.

  \<^verbatim>\<open>std::max_element\<close> is the standard library's scan (C++ standard,
  [alg.min.max]: the first iterator \<open>i\<close> such that no element is greater than \<open>*i\<close>,
  and \<open>last\<close> for an empty range):
  \<^verbatim>\<open>
  if (first == last) return last;
  largest = first;
  while (++first != last) if (*largest < *first) largest = first;
  return largest;
  \<close>
  The loop guard \<open>first \<noteq> last\<close> is written \<open>first < length xs\<close>: the scan starts
  at offset 1 of a non-empty range and moves by one, so both agree on every state it
  reaches, and the second one makes the recursion terminate from any state.
\<close>

function max_element_loop :: "'a::linorder list \<Rightarrow> nat \<Rightarrow> nat \<Rightarrow> nat" where
  "max_element_loop xs largest first =
     (if first < length xs
      then (if xs ! largest < xs ! first
            then max_element_loop xs first (Suc first)
            else max_element_loop xs largest (Suc first))
      else largest)"
  by pat_completeness auto
termination
  by (relation "measure (\<lambda>(xs, largest, first). length xs - first)") auto

definition std_max_element :: "'a::linorder list \<Rightarrow> nat" where
  "std_max_element xs = (if xs = [] then length xs else max_element_loop xs 0 1)"

text \<open>\<^verbatim>\<open>std::distance(first, it)\<close> is the offset of \<open>it\<close>, a \<^verbatim>\<open>std::ptrdiff_t\<close>.\<close>

definition std_distance :: "nat \<Rightarrow> int" where
  "std_distance it = int it"

text \<open>
  \<^verbatim>\<open>
  template <typename InputIt>
  inline int max_element_pos(InputIt first, InputIt last) {
    auto it = std::max_element(first, last);
    return std::distance(first, it);
  }
  \<close>
\<close>

definition max_element_pos :: "'a::linorder list \<Rightarrow> int" where
  "max_element_pos xs = (let it = std_max_element xs in to_int (std_distance it))"

section \<open>\<^verbatim>\<open>hesim::unique\<close>\<close>

text \<open>
  The template parameter \<open>T\<close> brings its \<^verbatim>\<open>operator<\<close> and \<^verbatim>\<open>operator==\<close>, the
  parameters \<open>op_less\<close> and \<open>op_eq\<close>: \<open>(<)\<close> and \<open>(=)\<close> for \<^verbatim>\<open>int\<close> or
  \<^verbatim>\<open>std::string\<close>, \<open>dlt\<close> and \<open>deq\<close> for \<^verbatim>\<open>double\<close>.

  \<^verbatim>\<open>std::sort(v.begin(), v.end())\<close> is the insertion sort with which libstdc++ sorts a
  range of at most 16 elements (\<^verbatim>\<open>std::__insertion_sort\<close>): every element after the
  first is put in front of the sorted part when it is less than its first element,
  and otherwise moved down from the end of the sorted part past every element it is
  less than (\<^verbatim>\<open>std::__unguarded_linear_insert\<close>). Where \<open>op_less\<close> is a strict total order
  on the elements, every \<^verbatim>\<open>std::sort\<close> returns the same vector, of any length; where it
  is not (doubles with a NaN), the C++ standard leaves the result open and this is
  what the library does on short vectors.
\<close>

definition unguarded_linear_insert :: "('a \<Rightarrow> 'a \<Rightarrow> bool) \<Rightarrow> 'a \<Rightarrow> 'a list \<Rightarrow> 'a list" where
  "unguarded_linear_insert op_less val sorted_part =
     rev (dropWhile (op_less val) (rev sorted_part)) @ val # rev (takeWhile (op_less val) (rev sorted_part))"

definition insertion_step :: "('a \<Rightarrow> 'a \<Rightarrow> bool) \<Rightarrow> 'a list \<Rightarrow> 'a \<Rightarrow> 'a list" where
  "insertion_step op_less sorted_part val =
     (if op_less val (hd sorted_part) then val # sorted_part
      else unguarded_linear_insert op_less val sorted_part)"

definition std_sort :: "('a \<Rightarrow> 'a \<Rightarrow> bool) \<Rightarrow> 'a list \<Rightarrow> 'a list" where
  "std_sort op_less v = (case v of [] \<Rightarrow> [] | x # xs \<Rightarrow> foldl (insertion_step op_less) [x] xs)"

text \<open>
  \<^verbatim>\<open>std::unique(first, last)\<close> keeps the first element of every group of consecutive
  elements that \<open>op_eq\<close> holds equal to it, moves the kept elements to the front in
  their order and returns the end of that front part; \<^verbatim>\<open>v.erase(new_end, v.end())\<close>
  then cuts the vector there. \<open>std_unique\<close> is the front part.
\<close>

fun std_unique :: "('a \<Rightarrow> 'a \<Rightarrow> bool) \<Rightarrow> 'a list \<Rightarrow> 'a list" where
  "std_unique op_eq [] = []"
| "std_unique op_eq [x] = [x]"
| "std_unique op_eq (x # y # xs) =
     (if op_eq x y then std_unique op_eq (x # xs) else x # std_unique op_eq (y # xs))"

text \<open>
  \<^verbatim>\<open>
  template <typename T>
  inline void unique(std::vector<T> &v){
    std::sort(v.begin(), v.end());
    v.erase(std::unique(v.begin(), v.end()), v.end());
  }
  \<close>
  The vector is changed in place: the model maps the vector before the call to the
  vector after it.
\<close>

definition unique :: "('a \<Rightarrow> 'a \<Rightarrow> bool) \<Rightarrow> ('a \<Rightarrow> 'a \<Rightarrow> bool) \<Rightarrow> 'a list \<Rightarrow> 'a list" where
  "unique op_less op_eq v = (let v1 = std_sort op_less v in std_unique op_eq v1)"

section \<open>Calls and the objects of the program\<close>

text \<open>
  The store holds every object of the running program at its address: the host lists
  (which a \<^verbatim>\<open>Rcpp::List\<close> names by handle), the matrices, the column vectors, the
  \<^verbatim>\<open>std::vector\<close>s, and the places of destroyed objects. A new object takes the next
  address; the addresses below \<open>length s\<close> are the objects that exist in \<open>s\<close>.
\<close>

datatype ('s, 'b) object =
  HostList "'s list" | Matrix "double mat" | Colvec "double list" | Ucolvec "nat list"
  | Vector "'b list" | Destroyed

definition new_object :: "('s, 'b) object list \<Rightarrow> ('s, 'b) object \<Rightarrow> nat \<times> ('s, 'b) object list" where
  "new_object s obj = (length s, s @ [obj])"

definition destroy :: "('s, 'b) object list \<Rightarrow> nat \<Rightarrow> ('s, 'b) object list" where
  "destroy s a = s[a := Destroyed]"

text \<open>
  Reading through a handle or an address. Handles and addresses are typed in the
  program, so the last case of each is never taken by the calls below.
\<close>

definition host_list_at :: "('s, 'b) object list \<Rightarrow> nat \<Rightarrow> 's list" where
  "host_list_at s l = (case s ! l of HostList xs \<Rightarrow> xs | _ \<Rightarrow> [])"

definition matrix_at :: "('s, 'b) object list \<Rightarrow> nat \<Rightarrow> double mat" where
  "matrix_at s p = (case s ! p of Matrix m \<Rightarrow> m | _ \<Rightarrow> \<lparr>n_rows = 0, n_cols = 0, mem = []\<rparr>)"

text \<open>\<^verbatim>\<open>v.push_back(y)\<close> on the vector at address \<open>v\<close>.\<close>

definition push_back :: "('s, 'b) object list \<Rightarrow> nat \<Rightarrow> 'b \<Rightarrow> ('s, 'b) object list" where
  "push_back s v y = (case s ! v of Vector ys \<Rightarrow> s[v := Vector (ys @ [y])] | _ \<Rightarrow> s)"

text \<open>
  \<open>list_to_vec\<close> run on the store. \<^verbatim>\<open>Rcpp::List l\<close> is passed by value: the parameter
  is a copy of the handle and names the same host list. \<^verbatim>\<open>T1 v;\<close> is a new vector;
  every \<^verbatim>\<open>l.size()\<close> and \<^verbatim>\<open>l[i]\<close> reads the host list in the store of that moment;
  the converter \<^verbatim>\<open>Rcpp::as<T2>\<close> of the binding layer runs on the store and may change
  it; \<^verbatim>\<open>push_back\<close> writes the vector; an exception destroys the vector on its way
  out; \<^verbatim>\<open>return v;\<close> hands the vector to the caller.
\<close>

function list_to_vec_loop_call ::
  "('s \<Rightarrow> ('s, 'b) object list \<Rightarrow> (error + 'b) \<times> ('s, 'b) object list) \<Rightarrow> nat \<Rightarrow> int \<Rightarrow> int
   \<Rightarrow> nat \<Rightarrow> ('s, 'b) object list \<Rightarrow> (error + nat) \<times> ('s, 'b) object list" where
  "list_to_vec_loop_call as_T2 l n i v s =
     (if i < n
      then (let r = as_T2 (host_list_at s l ! nat i) s
            in case fst r of
                 Inl e \<Rightarrow> (Inl e, destroy (snd r) v)
               | Inr y \<Rightarrow> list_to_vec_loop_call as_T2 l n (i + 1) v (push_back (snd r) v y))
      else (Inr v, s))"
  by pat_completeness auto
termination
  by (relation "measure (\<lambda>(as_T2, l, n, i, v, s). nat (n - i))") auto

definition list_to_vec_call ::
  "('s \<Rightarrow> ('s, 'b) object list \<Rightarrow> (error + 'b) \<times> ('s, 'b) object list) \<Rightarrow> nat
   \<Rightarrow> ('s, 'b) object list \<Rightarrow> (error + nat) \<times> ('s, 'b) object list" where
  "list_to_vec_call as_T2 l s =
     (let v = fst (new_object s (Vector []));
          s1 = snd (new_object s (Vector []));
          n = to_int (int (length (host_list_at s1 l)))
      in case vector_reserve n of
           Inl e \<Rightarrow> (Inl e, destroy s1 v)
         | Inr u \<Rightarrow> list_to_vec_loop_call as_T2 l n 0 v s1)"

text \<open>
  The row reductions run on the store. \<^verbatim>\<open>arma::mat x\<close> is passed by value: the
  parameter is a new matrix, a copy of the caller's matrix at address \<open>p\<close>. The body
  reads the parameter; the returned vector is a new object; the parameter is
  destroyed when the function returns or throws.
\<close>

definition C_rowmax_call ::
  "nat \<Rightarrow> ('s, 'b) object list \<Rightarrow> (error + nat) \<times> ('s, 'b) object list" where
  "C_rowmax_call p s =
     (let x = fst (new_object s (Matrix (matrix_at s p)));
          s1 = snd (new_object s (Matrix (matrix_at s p)))
      in case C_rowmax (matrix_at s1 x) of
           Inl e \<Rightarrow> (Inl e, destroy s1 x)
         | Inr r \<Rightarrow> (Inr (fst (new_object s1 (Colvec r))),
                     destroy (snd (new_object s1 (Colvec r))) x))"

definition C_rowmax_index_call ::
  "(nat \<Rightarrow> nat \<Rightarrow> bool) \<Rightarrow> nat \<Rightarrow> ('s, 'b) object list \<Rightarrow> (error + nat) \<times> ('s, 'b) object list" where
  "C_rowmax_index_call tie p s =
     (let x = fst (new_object s (Matrix (matrix_at s p)));
          s1 = snd (new_object s (Matrix (matrix_at s p)))
      in case C_rowmax_index tie (matrix_at s1 x) of
           Inl e \<Rightarrow> (Inl e, destroy s1 x)
         | Inr r \<Rightarrow> (Inr (fst (new_object s1 (Ucolvec r))),
                     destroy (snd (new_object s1 (Ucolvec r))) x))"

text \<open>
  What is taken of the converter \<^verbatim>\<open>Rcpp::as<T2>\<close>, which is code of the binding layer:
  it leaves every object of the store as it is (it may add objects), and what it
  returns is a function \<open>conv\<close> of the host value it is given.
\<close>

definition converter_reads ::
  "('s \<Rightarrow> ('s, 'b) object list \<Rightarrow> (error + 'b) \<times> ('s, 'b) object list) \<Rightarrow> ('s \<Rightarrow> error + 'b) \<Rightarrow> bool" where
  "converter_reads as_T2 conv \<longleftrightarrow>
     (\<forall>x t. take (length t) (snd (as_T2 x t)) = t \<and> fst (as_T2 x t) = conv x)"

text \<open>
  Modelled from the spec: \<^verbatim>\<open>Rcpp::as<arma::mat>\<close> is code of the binding layer, not under
  \<^verbatim>\<open>src/\<close>. On the store it builds the matrix as a temporary object, which is destroyed
  once its value has been handed on; for a host value that is no matrix it throws.
\<close>

definition as_arma_mat_call ::
  "double SEXP \<Rightarrow> (double SEXP, double mat) object list
   \<Rightarrow> (error + double mat) \<times> (double SEXP, double mat) object list" where
  "as_arma_mat_call x t =
     (case as_arma_mat x of
        Inl e \<Rightarrow> (Inl e, t)
      | Inr m \<Rightarrow> (Inr m, destroy (snd (new_object t (Matrix m))) (fst (new_object t (Matrix m)))))"

text \<open>
  What a call may do to its caller, \<open>s\<close> being the store before the call, \<open>out\<close> the
  outcome and the store after it, and \<open>expected\<close> the error or the value that the
  function computes from its input: every object of \<open>s\<close> is in the store after the
  call as it was; an error is the expected one; a returned address is none of \<open>s\<close>,
  so the result is a new object, and it holds the expected value.
\<close>

definition call_ok ::
  "('s, 'b) object list \<Rightarrow> (error + nat) \<times> ('s, 'b) object list \<Rightarrow> error + ('s, 'b) object \<Rightarrow> bool" where
  "call_ok s out expected \<longleftrightarrow>
     take (length s) (snd out) = s \<and>
     (case fst out of
        Inl e \<Rightarrow> expected = Inl e
      | Inr a \<Rightarrow> length s \<le> a \<and> a < length (snd out) \<and> expected = Inr (snd out ! a))"

text \<open>
  A store of two objects for the examples: a host list of two \<open>1 \<times> 1\<close> matrices at
  address 0 and a \<open>1 \<times> 2\<close> matrix at address 1.
\<close>

definition example_store :: "(double SEXP, double mat) object list" where
  "example_store =
     [HostList [NumericMatrix \<lparr>n_rows = 1, n_cols = 1, mem = [Fin 1]\<rparr>,
                NumericMatrix \<lparr>n_rows = 1, n_cols = 1, mem = [Fin 2]\<rparr>],
      Matrix \<lparr>n_rows = 1, n_cols = 2, mem = [Fin 3, Fin 4]\<rparr>]"

section \<open>Predicates of the proofs\<close>

text \<open>
  The states of the two scans of Armadillo after the columns below \<open>k\<close>.
\<close>

definition max_scan :: "double mat \<Rightarrow> nat \<Rightarrow> double list" where
  "max_scan x k = fold (op_max_col x) [1..<k] (map (\<lambda>row. mat_at x row 0) [0..<n_rows x])"

definition index_scan :: "(nat \<Rightarrow> nat \<Rightarrow> bool) \<Rightarrow> double mat \<Rightarrow> nat \<Rightarrow> double list \<times> nat list" where
  "index_scan tie x k =
     fold (op_index_max_col tie x) [1..<k]
       (map (\<lambda>row. mat_at x row 0) [0..<n_rows x], replicate (n_rows x) 0)"

text \<open>
  \<open>op_less\<close> is a strict total order on the set \<open>S\<close>, and \<open>op_eq\<close> is equality on it.
\<close>

definition strict_total_on :: "('a \<Rightarrow> 'a \<Rightarrow> bool) \<Rightarrow> ('a \<Rightarrow> 'a \<Rightarrow> bool) \<Rightarrow> 'a set \<Rightarrow> bool" where
  "strict_total_on op_less op_eq S \<longleftrightarrow>
     (\<forall>a\<in>S. \<not> op_less a a) \<and>
     (\<forall>a\<in>S. \<forall>b\<in>S. \<forall>c\<in>S. op_less a b \<and> op_less b c \<longrightarrow> op_less a c) \<and>
     (\<forall>a\<in>S. \<forall>b\<in>S. a \<noteq> b \<longrightarrow> op_less a b \<or> op_less b a) \<and>
     (\<forall>a\<in>S. \<forall>b\<in>S. op_eq a b \<longleftrightarrow> a = b)"

text \<open>
  \<open>r\<close> is the position of the first occurrence of the largest element of \<open>xs\<close>.
\<close>

definition first_max :: "'a::linorder list \<Rightarrow> nat \<Rightarrow> bool" where
  "first_max xs r \<longleftrightarrow> r < length xs \<and> (\<forall>j<length xs. xs ! j \<le> xs ! r) \<and> (\<forall>j<r. xs ! j < xs ! r)"

section \<open>Properties of the comparison of doubles\<close>

lemma dlt_NaN [simp]: "\<not> dlt NaN b" "\<not> dlt a NaN"
  by (cases a; simp)+

lemma dlt_irrefl [simp]: "\<not> dlt a a"
  by (cases a) simp_all

lemma dlt_trans: "dlt a b \<Longrightarrow> dlt b c \<Longrightarrow> dlt a c"
  by (cases a; cases b; cases c) simp_all

lemma dlt_total: "a \<noteq> NaN \<Longrightarrow> b \<noteq> NaN \<Longrightarrow> a \<noteq> b \<Longrightarrow> dlt a b \<or> dlt b a"
  by (cases a; cases b) auto

lemma dlt_asym: "dlt a b \<Longrightarrow> \<not> dlt b a"
  using dlt_trans [of a b a] by auto

lemma dle_refl: "a \<noteq> NaN \<Longrightarrow> dle a a"
  by (simp add: dle_def deq_def)

lemma dle_trans: "dle a b \<Longrightarrow> dle b c \<Longrightarrow> dle a c"
  by (auto simp: dle_def deq_def intro: dlt_trans)

lemma not_dlt_dle: "a \<noteq> NaN \<Longrightarrow> b \<noteq> NaN \<Longrightarrow> \<not> dlt a b \<Longrightarrow> dle b a"
  using dlt_total [of a b] by (auto simp: dle_def deq_def)

lemma dlt_dle: "dlt a b \<Longrightarrow> dle a b"
  by (simp add: dle_def)

lemma strict_total_onI:
  assumes "\<And>a. a \<in> S \<Longrightarrow> \<not> op_less a a"
    and "\<And>a b c. a \<in> S \<Longrightarrow> b \<in> S \<Longrightarrow> c \<in> S \<Longrightarrow> op_less a b \<Longrightarrow> op_less b c \<Longrightarrow> op_less a c"
    and "\<And>a b. a \<in> S \<Longrightarrow> b \<in> S \<Longrightarrow> a \<noteq> b \<Longrightarrow> op_less a b \<or> op_less b a"
    and "\<And>a b. a \<in> S \<Longrightarrow> b \<in> S \<Longrightarrow> op_eq a b \<longleftrightarrow> a = b"
  shows "strict_total_on op_less op_eq S"
  unfolding strict_total_on_def using assms by blast

lemma strict_total_on_dlt:
  assumes "NaN \<notin> S"
  shows "strict_total_on dlt deq S"
proof (rule strict_total_onI)
  show "\<not> dlt a a" for a by simp
  show "dlt a c" if "dlt a b" "dlt b c" for a b c using that by (rule dlt_trans)
  show "dlt a b \<or> dlt b a" if "a \<in> S" "b \<in> S" "a \<noteq> b" for a b
    using that assms by (intro dlt_total) auto
  show "deq a b \<longleftrightarrow> a = b" if "a \<in> S" "b \<in> S" for a b
    using that assms by (auto simp: deq_def)
qed

lemma strict_total_on_linorder: "strict_total_on (<) (=) (S :: 'a::linorder set)"
  by (rule strict_total_onI) auto

lemma strict_total_on_subset: "strict_total_on op_less op_eq S \<Longrightarrow> T \<subseteq> S \<Longrightarrow> strict_total_on op_less op_eq T"
  unfolding strict_total_on_def by blast

section \<open>Properties of the row reductions\<close>

lemma op_max_col_prefix:
  "k \<le> length out \<Longrightarrow>
   length (fold (op_max_row x col) [0..<k] out) = length out \<and>
   (\<forall>r<length out. fold (op_max_row x col) [0..<k] out ! r =
       (if r < k \<and> dlt (out ! r) (mat_at x r col) then mat_at x r col else out ! r))"
proof (induction k)
  case 0
  show ?case by simp
next
  case (Suc k)
  let ?o = "fold (op_max_row x col) [0..<k] out"
  from Suc have len: "length ?o = length out"
    and val: "\<And>r. r < length out \<Longrightarrow> ?o ! r =
       (if r < k \<and> dlt (out ! r) (mat_at x r col) then mat_at x r col else out ! r)"
    by simp_all
  from Suc.prems have k: "k < length out" by simp
  have step: "fold (op_max_row x col) [0..<Suc k] out = op_max_row x col k ?o" by simp
  have "length (op_max_row x col k ?o) = length out"
    by (simp add: op_max_row_def Let_def len)
  moreover have "op_max_row x col k ?o ! r =
       (if r < Suc k \<and> dlt (out ! r) (mat_at x r col) then mat_at x r col else out ! r)"
    if r: "r < length out" for r
  proof (cases "r = k")
    case True
    with k len val [OF r] show ?thesis
      by (auto simp: op_max_row_def Let_def dgt_def)
  next
    case False
    with k len val [OF r] r show ?thesis
      by (auto simp: op_max_row_def Let_def nth_list_update)
  qed
  ultimately show ?case unfolding step by blast
qed

lemma op_max_col_spec:
  assumes "length out = n_rows x"
  shows "length (op_max_col x col out) = n_rows x"
    and "r < n_rows x \<Longrightarrow> op_max_col x col out ! r =
           (if dlt (out ! r) (mat_at x r col) then mat_at x r col else out ! r)"
  using op_max_col_prefix [of "n_rows x" out x col] assms
  by (simp_all add: op_max_col_def)

lemma op_index_max_col_prefix:
  "k \<le> length tmp \<Longrightarrow> length out = length tmp \<Longrightarrow>
   length (fst (fold (op_index_max_row tie x col) [0..<k] (tmp, out))) = length tmp \<and>
   length (snd (fold (op_index_max_row tie x col) [0..<k] (tmp, out))) = length tmp \<and>
   (\<forall>r<length tmp.
      fst (fold (op_index_max_row tie x col) [0..<k] (tmp, out)) ! r =
        (if r < k \<and> (dlt (tmp ! r) (mat_at x r col) \<or> deq (tmp ! r) (mat_at x r col) \<and> tie r col)
         then mat_at x r col else tmp ! r) \<and>
      snd (fold (op_index_max_row tie x col) [0..<k] (tmp, out)) ! r =
        (if r < k \<and> (dlt (tmp ! r) (mat_at x r col) \<or> deq (tmp ! r) (mat_at x r col) \<and> tie r col)
         then col else out ! r))"
proof (induction k)
  case 0
  then show ?case by simp
next
  case (Suc k)
  let ?st = "fold (op_index_max_row tie x col) [0..<k] (tmp, out)"
  let ?upd = "\<lambda>r. dlt (tmp ! r) (mat_at x r col) \<or> deq (tmp ! r) (mat_at x r col) \<and> tie r col"
  from Suc have len: "length (fst ?st) = length tmp" "length (snd ?st) = length tmp"
    and val: "\<And>r. r < length tmp \<Longrightarrow>
      fst ?st ! r = (if r < k \<and> ?upd r then mat_at x r col else tmp ! r)"
      "\<And>r. r < length tmp \<Longrightarrow>
      snd ?st ! r = (if r < k \<and> ?upd r then col else out ! r)"
    by simp_all
  from Suc.prems have k: "k < length tmp" by simp
  have step: "fold (op_index_max_row tie x col) [0..<Suc k] (tmp, out)
      = op_index_max_row tie x col k ?st"
    by simp
  have l1: "length (fst (op_index_max_row tie x col k ?st)) = length tmp"
    and l2: "length (snd (op_index_max_row tie x col k ?st)) = length tmp"
    by (simp_all add: op_index_max_row_def Let_def len)
  have "fst (op_index_max_row tie x col k ?st) ! r =
          (if r < Suc k \<and> ?upd r then mat_at x r col else tmp ! r) \<and>
        snd (op_index_max_row tie x col k ?st) ! r =
          (if r < Suc k \<and> ?upd r then col else out ! r)"
    if r: "r < length tmp" for r
  proof (cases "r = k")
    case True
    with k len val(1) [OF r] val(2) [OF r] show ?thesis
      by (auto simp: op_index_max_row_def Let_def)
  next
    case False
    with k len val(1) [OF r] val(2) [OF r] r show ?thesis
      by (auto simp: op_index_max_row_def Let_def nth_list_update)
  qed
  with l1 l2 show ?case unfolding step by blast
qed

lemma op_index_max_col_spec:
  assumes "length (fst st) = n_rows x" "length (snd st) = n_rows x"
  shows "length (fst (op_index_max_col tie x col st)) = n_rows x"
    and "length (snd (op_index_max_col tie x col st)) = n_rows x"
    and "r < n_rows x \<Longrightarrow> fst (op_index_max_col tie x col st) ! r =
           (if dlt (fst st ! r) (mat_at x r col) \<or> deq (fst st ! r) (mat_at x r col) \<and> tie r col
            then mat_at x r col else fst st ! r)"
    and "r < n_rows x \<Longrightarrow> snd (op_index_max_col tie x col st) ! r =
           (if dlt (fst st ! r) (mat_at x r col) \<or> deq (fst st ! r) (mat_at x r col) \<and> tie r col
            then col else snd st ! r)"
  using op_index_max_col_prefix [of "n_rows x" "fst st" "snd st" tie x col] assms
  by (simp_all add: op_index_max_col_def)

lemma max_scan_1: "max_scan x (Suc 0) = map (\<lambda>row. mat_at x row 0) [0..<n_rows x]"
  by (simp add: max_scan_def)

lemma max_scan_Suc: "1 \<le> k \<Longrightarrow> max_scan x (Suc k) = op_max_col x k (max_scan x k)"
  by (simp add: max_scan_def)

lemma index_scan_1:
  "index_scan tie x (Suc 0) = (map (\<lambda>row. mat_at x row 0) [0..<n_rows x], replicate (n_rows x) 0)"
  by (simp add: index_scan_def)

lemma index_scan_Suc:
  "1 \<le> k \<Longrightarrow> index_scan tie x (Suc k) = op_index_max_col tie x k (index_scan tie x k)"
  by (simp add: index_scan_def)

lemma arma_max_dim1_scan: "0 < n_cols x \<Longrightarrow> arma_max_dim1 x = Inr (max_scan x (n_cols x))"
  by (simp add: arma_max_dim1_def max_scan_def)

lemma arma_index_max_dim1_scan:
  "0 < n_cols x \<Longrightarrow> arma_index_max_dim1 tie x = Inr (snd (index_scan tie x (n_cols x)))"
  by (simp add: arma_index_max_dim1_def index_scan_def)

lemma length_max_scan: "1 \<le> k \<Longrightarrow> length (max_scan x k) = n_rows x"
proof (induction k rule: nat_induct_at_least)
  case base
  show ?case by (simp add: max_scan_1)
next
  case (Suc k)
  then show ?case by (simp add: max_scan_Suc op_max_col_spec(1))
qed

lemma length_index_scan:
  "1 \<le> k \<Longrightarrow> length (fst (index_scan tie x k)) = n_rows x \<and>
     length (snd (index_scan tie x k)) = n_rows x"
proof (induction k rule: nat_induct_at_least)
  case base
  show ?case by (simp add: index_scan_1)
next
  case (Suc k)
  then show ?case by (simp add: index_scan_Suc op_index_max_col_spec(1,2))
qed

lemma max_scan_step:
  assumes "1 \<le> k" and "r < n_rows x"
  shows "max_scan x (Suc k) ! r =
     (if dlt (max_scan x k ! r) (mat_at x r k) then mat_at x r k else max_scan x k ! r)"
  using assms by (simp add: max_scan_Suc op_max_col_spec(2) [OF length_max_scan])

lemma index_scan_step:
  assumes "1 \<le> k" and "r < n_rows x"
  shows "fst (index_scan tie x (Suc k)) ! r =
     (if dlt (fst (index_scan tie x k) ! r) (mat_at x r k) \<or>
         deq (fst (index_scan tie x k) ! r) (mat_at x r k) \<and> tie r k
      then mat_at x r k else fst (index_scan tie x k) ! r)"
    and "snd (index_scan tie x (Suc k)) ! r =
     (if dlt (fst (index_scan tie x k) ! r) (mat_at x r k) \<or>
         deq (fst (index_scan tie x k) ! r) (mat_at x r k) \<and> tie r k
      then k else snd (index_scan tie x k) ! r)"
proof -
  from assms(1) have len: "length (fst (index_scan tie x k)) = n_rows x"
    "length (snd (index_scan tie x k)) = n_rows x"
    using length_index_scan by blast+
  show "fst (index_scan tie x (Suc k)) ! r =
     (if dlt (fst (index_scan tie x k) ! r) (mat_at x r k) \<or>
         deq (fst (index_scan tie x k) ! r) (mat_at x r k) \<and> tie r k
      then mat_at x r k else fst (index_scan tie x k) ! r)"
    using assms by (simp add: index_scan_Suc op_index_max_col_spec(3) [OF len])
  show "snd (index_scan tie x (Suc k)) ! r =
     (if dlt (fst (index_scan tie x k) ! r) (mat_at x r k) \<or>
         deq (fst (index_scan tie x k) ! r) (mat_at x r k) \<and> tie r k
      then k else snd (index_scan tie x k) ! r)"
    using assms by (simp add: index_scan_Suc op_index_max_col_spec(4) [OF len])
qed

text \<open>The index scan carries the value of the value scan, and its column holds it.\<close>

lemma scans_agree:
  assumes "r < n_rows x"
  shows "1 \<le> k \<Longrightarrow>
     fst (index_scan tie x k) ! r = max_scan x k ! r \<and>
     snd (index_scan tie x k) ! r < k \<and>
     mat_at x r (snd (index_scan tie x k) ! r) = max_scan x k ! r"
proof (induction k rule: nat_induct_at_least)
  case base
  from assms show ?case by (simp add: index_scan_1 max_scan_1)
next
  case (Suc k)
  let ?t = "fst (index_scan tie x k) ! r" and ?j = "snd (index_scan tie x k) ! r"
  let ?m = "max_scan x k ! r" and ?v = "mat_at x r k"
  from Suc.IH have eq: "?t = ?m" and lt: "?j < k" and at: "mat_at x r ?j = ?m" by blast+
  note ms = max_scan_step [OF Suc.hyps assms]
  note ixs = index_scan_step [OF Suc.hyps assms, of tie]
  show ?case
  proof (cases "dlt ?m ?v")
    case True
    with eq ms ixs show ?thesis by simp
  next
    case False
    show ?thesis
    proof (cases "deq ?m ?v \<and> tie r k")
      case True
      then have "?v = ?m" by (simp add: deq_def)
      with True False eq ms ixs show ?thesis by simp
    next
      case no: False
      with False eq ms ixs lt at show ?thesis by auto
    qed
  qed
qed

text \<open>On a row without NaN the value scan holds the greatest element so far.\<close>

lemma max_scan_greatest:
  assumes "r < n_rows x"
  shows "1 \<le> k \<Longrightarrow> \<forall>c<k. mat_at x r c \<noteq> NaN \<Longrightarrow>
     (\<exists>c<k. max_scan x k ! r = mat_at x r c) \<and> (\<forall>c<k. dle (mat_at x r c) (max_scan x k ! r))"
proof (induction k rule: nat_induct_at_least)
  case base
  then have "mat_at x r 0 \<noteq> NaN" by simp
  with assms show ?case by (simp add: max_scan_1 dle_refl)
next
  case (Suc k)
  let ?m = "max_scan x k ! r" and ?v = "mat_at x r k"
  from Suc.prems have nn: "\<forall>c<k. mat_at x r c \<noteq> NaN" and vn: "?v \<noteq> NaN" by simp_all
  from Suc.IH [OF nn] obtain c0 where c0: "c0 < k" "?m = mat_at x r c0"
    and ub: "\<forall>c<k. dle (mat_at x r c) ?m" by blast
  from c0 nn have mn: "?m \<noteq> NaN" by simp
  note ms = max_scan_step [OF Suc.hyps assms]
  show ?case
  proof (cases "dlt ?m ?v")
    case True
    then have new: "max_scan x (Suc k) ! r = ?v" using ms by simp
    have "dle (mat_at x r c) ?v" if "c < Suc k" for c
    proof (cases "c = k")
      case True
      with vn show ?thesis by (simp add: dle_refl)
    next
      case False
      with that have "c < k" by simp
      with ub have "dle (mat_at x r c) ?m" by blast
      with \<open>dlt ?m ?v\<close> show ?thesis by (blast intro: dle_trans dlt_dle)
    qed
    with new show ?thesis by auto
  next
    case False
    then have old: "max_scan x (Suc k) ! r = ?m" using ms by simp
    from False mn vn have "dle ?v ?m" by (intro not_dlt_dle)
    with ub have "dle (mat_at x r c) ?m" if "c < Suc k" for c
      using that by (cases "c = k") auto
    with old c0 show ?thesis by (auto intro: exI [of _ c0])
  qed
qed

lemma set_mat_row: "set (mat_row x i) = mat_at x i ` {..<n_cols x}"
  by (auto simp: mat_row_def)

lemmas scan_eval = C_rowmax_def arma_max_dim1_def op_max_col_def op_max_row_def
  C_rowmax_index_def arma_index_max_dim1_def op_index_max_col_def op_index_max_row_def
  mat_row_def mat_at_def dgt_def deq_def upt_rec numeral_eq_Suc

text \<open>
  C1, as it is stated for every matrix, fails on a row that holds a NaN: for the
  row \<open>[NaN, 1, 2]\<close> the scan keeps the NaN of the first column, since no
  comparison with NaN is true, and NaN is not the maximum of the row: the element 2
  is not less than or equal to it, and it is not the 2 either.
\<close>

theorem C_rowmax_NaN_row:
  "mat_row \<lparr>n_rows = 1, n_cols = 3, mem = [NaN, Fin 1, Fin 2]\<rparr> 0 = [NaN, Fin 1, Fin 2] \<and>
   C_rowmax \<lparr>n_rows = 1, n_cols = 3, mem = [NaN, Fin 1, Fin 2]\<rparr> = Inr [NaN] \<and>
   \<not> dle (Fin 2) NaN \<and> NaN \<noteq> Fin 2"
  by (simp add: scan_eval dle_def)

text \<open>
  C1. For a matrix with \<open>R\<close> rows and \<open>C > 0\<close> columns, \<open>C_rowmax\<close> returns a vector
  of length \<open>R\<close>, and for every row \<open>i\<close> that holds no NaN its \<open>i\<close>-th element is the
  maximum of the \<open>C\<close> elements of row \<open>i\<close>: an element of the row that every element of
  the row is less than or equal to.
\<close>

theorem C_rowmax_row_maximum:
  assumes "wf_mat x" and "0 < n_cols x"
  shows "\<exists>v. C_rowmax x = Inr v \<and> length v = n_rows x \<and>
           (\<forall>i<n_rows x. NaN \<notin> set (mat_row x i) \<longrightarrow>
              v ! i \<in> set (mat_row x i) \<and> (\<forall>e\<in>set (mat_row x i). dle e (v ! i)))"
proof -
  from assms(2) have k: "1 \<le> n_cols x" by simp
  have res: "C_rowmax x = Inr (max_scan x (n_cols x))"
    using assms(2) by (simp add: C_rowmax_def arma_max_dim1_scan)
  have len: "length (max_scan x (n_cols x)) = n_rows x"
    using k by (rule length_max_scan)
  have "max_scan x (n_cols x) ! i \<in> set (mat_row x i) \<and>
        (\<forall>e\<in>set (mat_row x i). dle e (max_scan x (n_cols x) ! i))"
    if i: "i < n_rows x" and nn: "NaN \<notin> set (mat_row x i)" for i
  proof -
    have "mat_at x i c \<noteq> NaN" if "c < n_cols x" for c
    proof
      assume "mat_at x i c = NaN"
      with that have "NaN \<in> mat_at x i ` {..<n_cols x}" by (metis imageI lessThan_iff)
      with nn show False by (simp add: set_mat_row)
    qed
    then have "\<forall>c<n_cols x. mat_at x i c \<noteq> NaN" by blast
    from max_scan_greatest [OF i k this] show ?thesis
      by (auto simp: set_mat_row)
  qed
  with res len show ?thesis by blast
qed

theorem C_rowmax_row_maximum_witness:
  "wf_mat \<lparr>n_rows = 2, n_cols = 2, mem = [Fin 4, NaN, Fin 3, Fin 7]\<rparr> \<and>
   0 < n_cols \<lparr>n_rows = 2, n_cols = 2, mem = [Fin 4, NaN, Fin 3, Fin 7]\<rparr> \<and>
   NaN \<notin> set (mat_row \<lparr>n_rows = 2, n_cols = 2, mem = [Fin 4, NaN, Fin 3, Fin 7]\<rparr> 0) \<and>
   (\<exists>v. C_rowmax \<lparr>n_rows = 2, n_cols = 2, mem = [Fin 4, NaN, Fin 3, Fin 7]\<rparr> = Inr v \<and>
        length v = 2 \<and> v ! 0 \<in> {Fin 4, Fin 3} \<and> dle (Fin 4) (v ! 0) \<and> dle (Fin 3) (v ! 0))"
proof -
  let ?x = "\<lparr>n_rows = 2, n_cols = 2, mem = [Fin 4, NaN, Fin 3, Fin 7]\<rparr>"
  have h1: "wf_mat ?x" by (simp add: wf_mat_def)
  have h2: "0 < n_cols ?x" by simp
  have r0: "mat_row ?x 0 = [Fin 4, Fin 3]"
    by (simp add: mat_row_def mat_at_def upt_rec)
  have h3: "NaN \<notin> set (mat_row ?x 0)" unfolding r0 by simp
  from C_rowmax_row_maximum [OF h1 h2] obtain v where
    v: "C_rowmax ?x = Inr v" "length v = n_rows ?x"
      "\<forall>i<n_rows ?x. NaN \<notin> set (mat_row ?x i) \<longrightarrow>
          v ! i \<in> set (mat_row ?x i) \<and> (\<forall>e\<in>set (mat_row ?x i). dle e (v ! i))"
    by blast
  have "0 < n_rows ?x" by simp
  with v(3) h3 have "v ! 0 \<in> set (mat_row ?x 0) \<and> (\<forall>e\<in>set (mat_row ?x 0). dle e (v ! 0))"
    by blast
  then have "v ! 0 \<in> {Fin 4, Fin 3} \<and> dle (Fin 4) (v ! 0) \<and> dle (Fin 3) (v ! 0)"
    unfolding r0 by simp
  with v(1,2) h1 h2 h3 show ?thesis by simp
qed

text \<open>
  C2. For every matrix with \<open>R\<close> rows and \<open>C > 0\<close> columns, NaN or not, and for every
  tie-break of the library, \<open>C_rowmax_index\<close> returns a vector of \<open>R\<close> column indices,
  and in every row the element at the returned index is the element that \<open>C_rowmax\<close>
  returns for that row (the same double; where that is a NaN, both are the NaN).
\<close>

theorem C_rowmax_index_selects_rowmax:
  assumes "wf_mat x" and "0 < n_cols x"
  shows "\<exists>idx v. C_rowmax_index tie x = Inr idx \<and> C_rowmax x = Inr v \<and>
           length idx = n_rows x \<and>
           (\<forall>i<n_rows x. idx ! i < n_cols x \<and> mat_at x i (idx ! i) = v ! i)"
proof -
  from assms(2) have k: "1 \<le> n_cols x" by simp
  have v: "C_rowmax x = Inr (max_scan x (n_cols x))"
    using assms(2) by (simp add: C_rowmax_def arma_max_dim1_scan)
  have idx: "C_rowmax_index tie x = Inr (snd (index_scan tie x (n_cols x)))"
    using assms(2) by (simp add: C_rowmax_index_def arma_index_max_dim1_scan)
  have len: "length (snd (index_scan tie x (n_cols x))) = n_rows x"
    using length_index_scan [OF k] by blast
  have "snd (index_scan tie x (n_cols x)) ! i < n_cols x \<and>
        mat_at x i (snd (index_scan tie x (n_cols x)) ! i) = max_scan x (n_cols x) ! i"
    if i: "i < n_rows x" for i
    using scans_agree [OF i k] by blast
  with v idx len show ?thesis by blast
qed

theorem C_rowmax_index_selects_rowmax_witness:
  "wf_mat \<lparr>n_rows = 2, n_cols = 2, mem = [Fin 4, NaN, Fin 4, Fin 7]\<rparr> \<and>
   0 < n_cols \<lparr>n_rows = 2, n_cols = 2, mem = [Fin 4, NaN, Fin 4, Fin 7]\<rparr> \<and>
   (\<exists>idx v. C_rowmax_index (\<lambda>row col. True) \<lparr>n_rows = 2, n_cols = 2, mem = [Fin 4, NaN, Fin 4, Fin 7]\<rparr>
        = Inr idx \<and>
      C_rowmax \<lparr>n_rows = 2, n_cols = 2, mem = [Fin 4, NaN, Fin 4, Fin 7]\<rparr> = Inr v \<and>
      length idx = n_rows \<lparr>n_rows = 2, n_cols = 2, mem = [Fin 4, NaN, Fin 4, Fin 7]\<rparr> \<and>
      (\<forall>i<n_rows \<lparr>n_rows = 2, n_cols = 2, mem = [Fin 4, NaN, Fin 4, Fin 7]\<rparr>.
          idx ! i < n_cols \<lparr>n_rows = 2, n_cols = 2, mem = [Fin 4, NaN, Fin 4, Fin 7]\<rparr> \<and>
          mat_at \<lparr>n_rows = 2, n_cols = 2, mem = [Fin 4, NaN, Fin 4, Fin 7]\<rparr> i (idx ! i) = v ! i))"
proof -
  let ?x = "\<lparr>n_rows = 2, n_cols = 2, mem = [Fin 4, NaN, Fin 4, Fin 7]\<rparr>"
  have h1: "wf_mat ?x" by (simp add: wf_mat_def)
  have h2: "0 < n_cols ?x" by simp
  from h1 h2 C_rowmax_index_selects_rowmax [OF h1 h2, of "\<lambda>row col. True"] show ?thesis by blast
qed

text \<open>
  C5. For the matrix with the rows \<open>[1, 5, 3]\<close> and \<open>[9, 2, 2]\<close> (column-major
  \<open>1, 9, 5, 2, 3, 2\<close>), \<open>C_rowmax\<close> returns \<open>[5, 9]\<close> and \<open>C_rowmax_index\<close> returns
  the zero-based indices \<open>[1, 0]\<close>, whatever the tie-break of the library.
\<close>

theorem C_rowmax_example:
  "mat_row \<lparr>n_rows = 2, n_cols = 3, mem = [Fin 1, Fin 9, Fin 5, Fin 2, Fin 3, Fin 2]\<rparr> 0
     = [Fin 1, Fin 5, Fin 3] \<and>
   mat_row \<lparr>n_rows = 2, n_cols = 3, mem = [Fin 1, Fin 9, Fin 5, Fin 2, Fin 3, Fin 2]\<rparr> 1
     = [Fin 9, Fin 2, Fin 2] \<and>
   C_rowmax \<lparr>n_rows = 2, n_cols = 3, mem = [Fin 1, Fin 9, Fin 5, Fin 2, Fin 3, Fin 2]\<rparr>
     = Inr [Fin 5, Fin 9] \<and>
   C_rowmax_index tie \<lparr>n_rows = 2, n_cols = 3, mem = [Fin 1, Fin 9, Fin 5, Fin 2, Fin 3, Fin 2]\<rparr>
     = Inr [1, 0]"
  by (simp add: scan_eval)

text \<open>
  C6. For a matrix with no rows or no columns the two reductions check nothing
  themselves: each returns what the Armadillo routine returns for that matrix, be
  it a value or an error.
\<close>

theorem C_rowmax_degenerate_defers:
  assumes "n_rows x = 0 \<or> n_cols x = 0"
  shows "C_rowmax x = arma_max_dim1 x \<and> C_rowmax_index tie x = arma_index_max_dim1 tie x"
  by (simp add: C_rowmax_def C_rowmax_index_def)

theorem C_rowmax_degenerate_defers_witness:
  "(n_rows \<lparr>n_rows = 3, n_cols = 0, mem = ([] :: double list)\<rparr> = 0 \<or>
    n_cols \<lparr>n_rows = 3, n_cols = 0, mem = ([] :: double list)\<rparr> = 0) \<and>
   C_rowmax \<lparr>n_rows = 3, n_cols = 0, mem = ([] :: double list)\<rparr>
     = arma_max_dim1 \<lparr>n_rows = 3, n_cols = 0, mem = ([] :: double list)\<rparr> \<and>
   C_rowmax_index (\<lambda>row col. False) \<lparr>n_rows = 3, n_cols = 0, mem = ([] :: double list)\<rparr>
     = arma_index_max_dim1 (\<lambda>row col. False) \<lparr>n_rows = 3, n_cols = 0, mem = ([] :: double list)\<rparr>"
proof -
  let ?x = "\<lparr>n_rows = 3, n_cols = 0, mem = ([] :: double list)\<rparr>"
  have h: "n_rows ?x = 0 \<or> n_cols ?x = 0" by simp
  from h C_rowmax_degenerate_defers [OF h, of "\<lambda>row col. False"] show ?thesis by blast
qed

text \<open>
  Which of several columns holding the row maximum \<open>C_rowmax_index\<close> returns follows
  the tie-break of the library: on the row \<open>[5, 5, 2]\<close> the policy that is false
  everywhere gives column 0 and the policy that is true everywhere gives column 1.
  With the first of the two, on a row without NaN, no column left of the returned one
  holds the maximum.
\<close>

lemma C_rowmax_index_tie_follows_library:
  "mat_row \<lparr>n_rows = 1, n_cols = 3, mem = [Fin 5, Fin 5, Fin 2]\<rparr> 0 = [Fin 5, Fin 5, Fin 2] \<and>
   C_rowmax_index (\<lambda>row col. False) \<lparr>n_rows = 1, n_cols = 3, mem = [Fin 5, Fin 5, Fin 2]\<rparr> = Inr [0] \<and>
   C_rowmax_index (\<lambda>row col. True) \<lparr>n_rows = 1, n_cols = 3, mem = [Fin 5, Fin 5, Fin 2]\<rparr> = Inr [1]"
  by (simp add: scan_eval)

lemma dle_dlt_trans: "dle a b \<Longrightarrow> dlt b c \<Longrightarrow> dlt a c"
  by (auto simp: dle_def deq_def intro: dlt_trans)

text \<open>
  With the tie-break that never lets an equal value win, every column left of the
  returned one holds a smaller element, on a row without NaN.
\<close>

lemma index_scan_first_wins:
  assumes "r < n_rows x"
  shows "1 \<le> k \<Longrightarrow> \<forall>c<k. mat_at x r c \<noteq> NaN \<Longrightarrow>
     (\<forall>c. c < snd (index_scan (\<lambda>row col. False) x k) ! r \<longrightarrow>
          dlt (mat_at x r c) (max_scan x k ! r))"
proof (induction k rule: nat_induct_at_least)
  case base
  from assms show ?case by (simp add: index_scan_1)
next
  case (Suc k)
  let ?tie = "\<lambda>(row::nat) (col::nat). False"
  let ?m = "max_scan x k ! r" and ?v = "mat_at x r k"
  from Suc.prems have nn: "\<forall>c<k. mat_at x r c \<noteq> NaN" by simp
  from Suc.IH [OF nn] have first: "\<forall>c. c < snd (index_scan ?tie x k) ! r \<longrightarrow> dlt (mat_at x r c) ?m" .
  from max_scan_greatest [OF assms Suc.hyps nn] have ub: "\<forall>c<k. dle (mat_at x r c) ?m" by blast
  from scans_agree [OF assms Suc.hyps, of ?tie] have eq: "fst (index_scan ?tie x k) ! r = ?m" by blast
  note ms = max_scan_step [OF Suc.hyps assms]
  note ixs = index_scan_step(2) [OF Suc.hyps assms, of ?tie]
  show ?case
  proof (cases "dlt ?m ?v")
    case True
    then have "max_scan x (Suc k) ! r = ?v" "snd (index_scan ?tie x (Suc k)) ! r = k"
      using ms ixs eq by simp_all
    moreover have "dlt (mat_at x r c) ?v" if "c < k" for c
      using ub that True by (blast intro: dle_dlt_trans)
    ultimately show ?thesis by simp
  next
    case False
    then have "max_scan x (Suc k) ! r = ?m"
      "snd (index_scan ?tie x (Suc k)) ! r = snd (index_scan ?tie x k) ! r"
      using ms ixs eq by simp_all
    with first show ?thesis by simp
  qed
qed

lemma C_rowmax_index_first_wins:
  assumes "0 < n_cols x"
  shows "\<exists>idx v. C_rowmax_index (\<lambda>row col. False) x = Inr idx \<and> C_rowmax x = Inr v \<and>
     (\<forall>i<n_rows x. NaN \<notin> set (mat_row x i) \<longrightarrow>
        (\<forall>j<n_cols x. mat_at x i j = v ! i \<longrightarrow> idx ! i \<le> j))"
proof -
  let ?tie = "\<lambda>(row::nat) (col::nat). False"
  from assms have k: "1 \<le> n_cols x" by simp
  have v: "C_rowmax x = Inr (max_scan x (n_cols x))"
    using assms by (simp add: C_rowmax_def arma_max_dim1_scan)
  have idx: "C_rowmax_index ?tie x = Inr (snd (index_scan ?tie x (n_cols x)))"
    using assms by (simp add: C_rowmax_index_def arma_index_max_dim1_scan)
  have "snd (index_scan ?tie x (n_cols x)) ! i \<le> j"
    if i: "i < n_rows x" and nn: "NaN \<notin> set (mat_row x i)"
      and j: "j < n_cols x" "mat_at x i j = max_scan x (n_cols x) ! i" for i j
  proof (rule ccontr)
    assume "\<not> snd (index_scan ?tie x (n_cols x)) ! i \<le> j"
    then have lt: "j < snd (index_scan ?tie x (n_cols x)) ! i" by simp
    have "mat_at x i c \<noteq> NaN" if "c < n_cols x" for c
    proof
      assume "mat_at x i c = NaN"
      with that have "NaN \<in> mat_at x i ` {..<n_cols x}" by (metis imageI lessThan_iff)
      with nn show False by (simp add: set_mat_row)
    qed
    then have "\<forall>c<n_cols x. mat_at x i c \<noteq> NaN" by blast
    from index_scan_first_wins [OF i k this] lt
    have "dlt (mat_at x i j) (max_scan x (n_cols x) ! i)" by blast
    with j(2) show False by simp
  qed
  with v idx show ?thesis by blast
qed

section \<open>Properties of \<open>list_to_vec\<close>\<close>

text \<open>
  The narrowing keeps a value below \<open>2^31\<close> and never yields more than the value.
\<close>

lemma to_int_mod: "to_int d = (d + 2147483648) mod 4294967296 - 2147483648"
  by (simp add: to_int_def int_word_sint)

lemma to_int_id: "0 \<le> d \<Longrightarrow> d < 2147483648 \<Longrightarrow> to_int d = d"
  by (simp add: to_int_mod)

lemma to_int_le: "0 \<le> d \<Longrightarrow> to_int d \<le> d"
proof -
  assume "0 \<le> d"
  then have "(d + 2147483648) mod 4294967296 \<le> d + 2147483648"
    by (intro zmod_le_nonneg_dividend) simp
  then show ?thesis by (simp add: to_int_mod)
qed

text \<open>
  Below \<open>2^31\<close> elements the conversion is the element-wise one: a list of
  convertible elements becomes the container of the converted elements in the same
  order, and a list with an element that is not convertible fails with the exception
  of the first such element.
\<close>

lemma list_to_vec_index_in_range:
  assumes "0 \<le> i" and "i < to_int (int (length l))"
  shows "nat i < length l"
proof -
  have "to_int (int (length l)) \<le> int (length l)" by (rule to_int_le) simp
  with assms show ?thesis by simp
qed

lemma list_to_vec_loop_ok:
  "0 \<le> i \<Longrightarrow> \<forall>k. i \<le> k \<and> k < n \<longrightarrow> (\<exists>y. as_T2 (l ! nat k) = Inr y) \<Longrightarrow>
   list_to_vec_loop as_T2 l n i v = Inr (v @ map (\<lambda>k. projr (as_T2 (l ! k))) [nat i..<nat n])"
proof (induction as_T2 l n i v rule: list_to_vec_loop.induct)
  case (1 as_T2 l n i v)
  show ?case
  proof (cases "i < n")
    case False
    then show ?thesis by simp
  next
    case True
    with "1.prems" obtain y where y: "as_T2 (l ! nat i) = Inr y" by auto
    have "list_to_vec_loop as_T2 l n (i + 1) (v @ [y])
        = Inr ((v @ [y]) @ map (\<lambda>k. projr (as_T2 (l ! k))) [nat (i + 1)..<nat n])"
      using True y "1.prems" by (intro "1.IH") auto
    moreover have "[nat i..<nat n] = nat i # [nat (i + 1)..<nat n]"
      using True "1.prems"(1) by (simp add: upt_conv_Cons nat_add_distrib)
    ultimately show ?thesis using True y by simp
  qed
qed

lemma list_to_vec_loop_fails:
  "0 \<le> i \<Longrightarrow> i \<le> k \<Longrightarrow> k < n \<Longrightarrow> as_T2 (l ! nat k) = Inl e \<Longrightarrow>
   \<exists>j e'. i \<le> j \<and> j \<le> k \<and> as_T2 (l ! nat j) = Inl e' \<and>
     list_to_vec_loop as_T2 l n i v = Inl e'"
proof (induction as_T2 l n i v rule: list_to_vec_loop.induct)
  case (1 as_T2 l n i v)
  from "1.prems" have lt: "i < n" by simp
  show ?case
  proof (cases "as_T2 (l ! nat i)")
    case (Inl e')
    with lt have "list_to_vec_loop as_T2 l n i v = Inl e'" by simp
    with Inl "1.prems" show ?thesis by (intro exI [of _ i] exI [of _ e']) simp
  next
    case (Inr y)
    with "1.prems" have "i \<noteq> k" by auto
    with "1.prems" have "i + 1 \<le> k" by simp
    with lt Inr "1.prems" have "\<exists>j e'. i + 1 \<le> j \<and> j \<le> k \<and> as_T2 (l ! nat j) = Inl e' \<and>
        list_to_vec_loop as_T2 l n (i + 1) (v @ [y]) = Inl e'"
      by (intro "1.IH") auto
    then obtain j e' where "i + 1 \<le> j" "j \<le> k" "as_T2 (l ! nat j) = Inl e'"
      "list_to_vec_loop as_T2 l n (i + 1) (v @ [y]) = Inl e'" by blast
    with lt Inr show ?thesis by (intro exI [of _ j] exI [of _ e']) simp
  qed
qed

lemma list_to_vec_ok:
  assumes len: "length l < 2147483648"
    and conv: "\<forall>s\<in>set l. \<exists>y. as_T2 s = Inr y"
  shows "list_to_vec as_T2 l = Inr (map (\<lambda>s. projr (as_T2 s)) l)"
proof -
  from len have n: "to_int (int (length l)) = int (length l)"
    by (intro to_int_id) simp_all
  have "\<forall>k. 0 \<le> k \<and> k < int (length l) \<longrightarrow> (\<exists>y. as_T2 (l ! nat k) = Inr y)"
    using conv by (auto simp: nat_less_iff)
  then have "list_to_vec_loop as_T2 l (int (length l)) 0 [] =
      Inr ([] @ map (\<lambda>k. projr (as_T2 (l ! k))) [nat 0..<nat (int (length l))])"
    by (intro list_to_vec_loop_ok) simp_all
  moreover have "map (\<lambda>k. projr (as_T2 (l ! k))) [0..<length l] = map (\<lambda>s. projr (as_T2 s)) l"
    by (simp add: map_equality_iff)
  ultimately show ?thesis
    by (simp add: list_to_vec_def n vector_reserve_def)
qed

lemma list_to_vec_fails:
  assumes len: "length l < 2147483648"
    and bad: "k < length l" "as_T2 (l ! k) = Inl e"
  shows "\<exists>j e'. j \<le> k \<and> as_T2 (l ! j) = Inl e' \<and> list_to_vec as_T2 l = Inl e'"
proof -
  from len have n: "to_int (int (length l)) = int (length l)"
    by (intro to_int_id) simp_all
  from bad have "\<exists>j e'. 0 \<le> j \<and> j \<le> int k \<and> as_T2 (l ! nat j) = Inl e' \<and>
     list_to_vec_loop as_T2 l (int (length l)) 0 [] = Inl e'"
    by (intro list_to_vec_loop_fails [where e = e]) simp_all
  then obtain j e' where j: "0 \<le> j" "j \<le> int k" "as_T2 (l ! nat j) = Inl e'"
     "list_to_vec_loop as_T2 l (int (length l)) 0 [] = Inl e'" by blast
  then have "nat j \<le> k" by simp
  with j show ?thesis
    by (intro exI [of _ "nat j"] exI [of _ e']) (simp add: list_to_vec_def n vector_reserve_def)
qed

lemma as_vecmats_ok:
  assumes "as_List object = Inr l" and "length l < 2147483648"
    and "\<forall>s\<in>set l. \<exists>y. as_mat s = Inr y"
  shows "as_vecmats as_List as_mat object = Inr (map (\<lambda>s. projr (as_mat s)) l)"
  using assms(1) list_to_vec_ok [OF assms(2,3)] by (simp add: as_vecmats_def)

text \<open>
  C3. A host list of \<open>N\<close> matrices is to become a container of length \<open>N\<close> with
  the converted elements in the input order. For a list of \<open>2^32\<close> matrices the
  count narrowed to \<^verbatim>\<open>int\<close> is 0, and the result is the empty container.
\<close>

theorem list_to_vec_truncates_long_list:
  "length (replicate (2 ^ 32) (NumericMatrix \<lparr>n_rows = 1, n_cols = 1, mem = [0 :: real]\<rparr>))
     = 4294967296 \<and>
   as_arma_mat (NumericMatrix \<lparr>n_rows = 1, n_cols = 1, mem = [0 :: real]\<rparr>)
     = Inr \<lparr>n_rows = 1, n_cols = 1, mem = [0]\<rparr> \<and>
   list_to_vec as_arma_mat
      (replicate (2 ^ 32) (NumericMatrix \<lparr>n_rows = 1, n_cols = 1, mem = [0 :: real]\<rparr>)) = Inr []"
  by (simp add: list_to_vec_def to_int_def vector_reserve_def)

text \<open>
  C4. A host list with an element that is not convertible is to fail with the
  conversion error and return nothing. For a list of \<open>2^32 + 1\<close> elements whose
  second element is a character vector the count narrowed to \<^verbatim>\<open>int\<close> is 1, and
  the result is the container of the first element alone.
\<close>

theorem list_to_vec_partial_on_long_list:
  "as_arma_mat ((NumericMatrix \<lparr>n_rows = 1, n_cols = 1, mem = [0 :: real]\<rparr>
        # CharacterVector [''a'']
        # replicate (2 ^ 32 - 1) (NumericMatrix \<lparr>n_rows = 1, n_cols = 1, mem = [0]\<rparr>)) ! 1)
     = Inl not_compatible \<and>
   list_to_vec as_arma_mat
     (NumericMatrix \<lparr>n_rows = 1, n_cols = 1, mem = [0 :: real]\<rparr>
        # CharacterVector [''a'']
        # replicate (2 ^ 32 - 1) (NumericMatrix \<lparr>n_rows = 1, n_cols = 1, mem = [0]\<rparr>))
     = Inr [\<lparr>n_rows = 1, n_cols = 1, mem = [0]\<rparr>]"
  by (simp add: list_to_vec_def to_int_def vector_reserve_def)

section \<open>Properties of the calls\<close>

text \<open>
  A store that has another one as its front part holds every object of that one
  unchanged.
\<close>

lemma prefix_length:
  assumes "take (length s) t = s"
  shows "length s \<le> length t"
proof -
  have "length (take (length s) t) = length s" by (simp only: assms)
  then show ?thesis by simp
qed

lemma prefix_nth: "take (length s) t = s \<Longrightarrow> a < length s \<Longrightarrow> t ! a = s ! a"
  by (metis nth_take)

lemma prefix_trans:
  assumes "take (length s) t = s" and "take (length t) u = t"
  shows "take (length s) u = s"
proof -
  from assms(1) have "length s \<le> length t" by (rule prefix_length)
  then have "take (length s) u = take (length s) (take (length t) u)" by simp
  with assms show ?thesis by simp
qed

lemma prefix_destroy: "take (length s) t = s \<Longrightarrow> length s \<le> v \<Longrightarrow> take (length s) (destroy t v) = s"
  by (simp add: destroy_def)

lemma converter_reads_frame: "converter_reads as_T2 conv \<Longrightarrow> take (length t) (snd (as_T2 x t)) = t"
  by (simp add: converter_reads_def)

lemma converter_reads_value: "converter_reads as_T2 conv \<Longrightarrow> fst (as_T2 x t) = conv x"
  by (simp add: converter_reads_def)

lemma list_to_vec_loop_call_spec:
  "converter_reads as_T2 conv \<Longrightarrow> l < length s0 \<Longrightarrow> s0 ! l = HostList xs \<Longrightarrow>
   take (length s0) t = s0 \<Longrightarrow> v = length s0 \<Longrightarrow> v < length t \<Longrightarrow> t ! v = Vector acc \<Longrightarrow>
     take (length s0) (snd (list_to_vec_loop_call as_T2 l n i v t)) = s0 \<and>
     (case fst (list_to_vec_loop_call as_T2 l n i v t) of
        Inl e \<Rightarrow> list_to_vec_loop conv xs n i acc = Inl e
      | Inr a \<Rightarrow> a = v \<and> a < length (snd (list_to_vec_loop_call as_T2 l n i v t)) \<and>
          (\<exists>ys. snd (list_to_vec_loop_call as_T2 l n i v t) ! a = Vector ys \<and>
                list_to_vec_loop conv xs n i acc = Inr ys))"
proof (induction as_T2 l n i v t arbitrary: acc rule: list_to_vec_loop_call.induct)
  case (1 as_T2 l n i v t)
  note cr = "1.prems"(1) and l = "1.prems"(2,3) and pre = "1.prems"(4)
    and v = "1.prems"(5,6) and acc = "1.prems"(7)
  show ?case
  proof (cases "i < n")
    case False
    then have out: "list_to_vec_loop_call as_T2 l n i v t = (Inr v, t)"
      by (subst list_to_vec_loop_call.simps) (simp del: list_to_vec_loop_call.simps)
    from False have pure: "list_to_vec_loop conv xs n i acc = Inr acc"
      by (subst list_to_vec_loop.simps) (simp del: list_to_vec_loop.simps)
    from pre v acc show ?thesis unfolding out pure by simp
  next
    case True
    from pre l have "t ! l = HostList xs" by (simp add: prefix_nth)
    then have hl: "host_list_at t l = xs" by (simp add: host_list_at_def)
    define r where "r = as_T2 (host_list_at t l ! nat i) t"
    have val: "fst r = conv (xs ! nat i)"
      unfolding r_def hl using cr by (rule converter_reads_value)
    have fr: "take (length t) (snd r) = t"
      unfolding r_def using cr by (rule converter_reads_frame)
    from pre fr have pre': "take (length s0) (snd r) = s0" by (rule prefix_trans)
    from fr v have rv: "snd r ! v = Vector acc" using acc by (simp add: prefix_nth)
    from fr have len: "length t \<le> length (snd r)" by (rule prefix_length)
    show ?thesis
    proof (cases "conv (xs ! nat i)")
      case (Inl e)
      with val have "fst r = Inl e" by simp
      with True have out: "list_to_vec_loop_call as_T2 l n i v t = (Inl e, destroy (snd r) v)"
        by (subst list_to_vec_loop_call.simps)
          (simp add: r_def [symmetric] Let_def del: list_to_vec_loop_call.simps)
      from True Inl have pure: "list_to_vec_loop conv xs n i acc = Inl e"
        by (subst list_to_vec_loop.simps) (simp del: list_to_vec_loop.simps)
      from pre' v have "take (length s0) (destroy (snd r) v) = s0"
        by (intro prefix_destroy) simp_all
      then show ?thesis unfolding out pure by simp
    next
      case (Inr y)
      with val have fy: "fst r = Inr y" by simp
      with True have out: "list_to_vec_loop_call as_T2 l n i v t
          = list_to_vec_loop_call as_T2 l n (i + 1) v (push_back (snd r) v y)"
        by (subst list_to_vec_loop_call.simps)
          (simp add: r_def [symmetric] Let_def del: list_to_vec_loop_call.simps)
      from True Inr have pure: "list_to_vec_loop conv xs n i acc
          = list_to_vec_loop conv xs n (i + 1) (acc @ [y])"
        by (subst list_to_vec_loop.simps) (simp del: list_to_vec_loop.simps)
      have pb: "push_back (snd r) v y = (snd r)[v := Vector (acc @ [y])]"
        by (simp add: push_back_def rv)
      show ?thesis unfolding out pure
      proof (rule "1.IH" [OF True r_def fy cr l])
        show "take (length s0) (push_back (snd r) v y) = s0"
          unfolding pb using pre' v by simp
        show "v = length s0" by (rule v(1))
        show "v < length (push_back (snd r) v y)"
          unfolding pb using v len by simp
        show "push_back (snd r) v y ! v = Vector (acc @ [y])"
          unfolding pb using v len by simp
      qed
    qed
  qed
qed

lemma list_to_vec_call_ok:
  assumes cr: "converter_reads as_T2 conv"
    and l: "l < length s" "s ! l = HostList xs"
  shows "call_ok s (list_to_vec_call as_T2 l s) (map_sum id Vector (list_to_vec conv xs))"
proof -
  define s1 where "s1 = s @ [Vector []]"
  define n where "n = to_int (int (length xs))"
  have pre: "take (length s) s1 = s" by (simp add: s1_def)
  from l have "s1 ! l = HostList xs" by (simp add: s1_def nth_append)
  then have hl: "host_list_at s1 l = xs" by (simp add: host_list_at_def)
  have call: "list_to_vec_call as_T2 l s =
      (case vector_reserve n of
         Inl e \<Rightarrow> (Inl e, destroy s1 (length s))
       | Inr u \<Rightarrow> list_to_vec_loop_call as_T2 l n 0 (length s) s1)"
    unfolding list_to_vec_call_def new_object_def Let_def fst_conv snd_conv
      s1_def [symmetric] hl n_def [symmetric] by (rule refl)
  have pure: "list_to_vec conv xs =
      (case vector_reserve n of
         Inl e \<Rightarrow> Inl e
       | Inr u \<Rightarrow> list_to_vec_loop conv xs n 0 [])"
    unfolding list_to_vec_def Let_def n_def [symmetric] by (rule refl)
  show ?thesis
  proof (cases "vector_reserve n")
    case (Inl e)
    have "take (length s) (destroy s1 (length s)) = s"
      using pre by (rule prefix_destroy) simp
    with Inl show ?thesis by (simp add: call pure call_ok_def del: list_to_vec_loop.simps)
  next
    case (Inr u)
    let ?out = "list_to_vec_loop_call as_T2 l n 0 (length s) s1"
    have spec: "take (length s) (snd ?out) = s \<and>
      (case fst ?out of
         Inl e \<Rightarrow> list_to_vec_loop conv xs n 0 [] = Inl e
       | Inr a \<Rightarrow> a = length s \<and> a < length (snd ?out) \<and>
           (\<exists>ys. snd ?out ! a = Vector ys \<and> list_to_vec_loop conv xs n 0 [] = Inr ys))"
      using cr l pre by (rule list_to_vec_loop_call_spec) (simp_all add: s1_def)
    show ?thesis
    proof (cases "fst ?out")
      case e: (Inl e)
      with spec Inr show ?thesis
        by (simp add: call pure call_ok_def del: list_to_vec_loop.simps list_to_vec_loop_call.simps)
    next
      case a: (Inr a)
      with spec obtain ys where "a = length s" "a < length (snd ?out)"
        "snd ?out ! a = Vector ys" "list_to_vec_loop conv xs n 0 [] = Inr ys"
        by auto
      with spec a Inr show ?thesis
        by (simp add: call pure call_ok_def del: list_to_vec_loop.simps list_to_vec_loop_call.simps)
    qed
  qed
qed

lemma C_rowmax_call_ok:
  assumes "p < length s" "s ! p = Matrix m"
  shows "call_ok s (C_rowmax_call p s) (map_sum id Colvec (C_rowmax m))"
proof -
  from assms have m: "matrix_at s p = m" by (simp add: matrix_at_def)
  have x: "matrix_at (s @ [Matrix m]) (length s) = m" by (simp add: matrix_at_def)
  show ?thesis
    by (cases "C_rowmax m")
      (simp_all add: C_rowmax_call_def new_object_def m x call_ok_def destroy_def Let_def nth_append)
qed

lemma C_rowmax_index_call_ok:
  assumes "p < length s" "s ! p = Matrix m"
  shows "call_ok s (C_rowmax_index_call tie p s) (map_sum id Ucolvec (C_rowmax_index tie m))"
proof -
  from assms have m: "matrix_at s p = m" by (simp add: matrix_at_def)
  have x: "matrix_at (s @ [Matrix m]) (length s) = m" by (simp add: matrix_at_def)
  show ?thesis
    by (cases "C_rowmax_index tie m")
      (simp_all add: C_rowmax_index_call_def new_object_def m x call_ok_def destroy_def Let_def nth_append)
qed

lemma converter_reads_as_arma_mat_call: "converter_reads as_arma_mat_call as_arma_mat"
proof -
  have "take (length t) (snd (as_arma_mat_call x t)) = t \<and> fst (as_arma_mat_call x t) = as_arma_mat x"
    for x t
    by (cases "as_arma_mat x") (simp_all add: as_arma_mat_call_def new_object_def destroy_def)
  then show ?thesis unfolding converter_reads_def by blast
qed

text \<open>
  C7. A call of \<open>list_to_vec\<close>, \<open>C_rowmax\<close> or \<open>C_rowmax_index\<close> leaves every object
  that existed before the call as it was, the host list and the caller's matrix
  among them, although the call creates, writes and destroys objects of its own; the
  result is a new object, at an address that was not in use before the call; and
  the error or the value in it is a function of the host list or the matrix alone,
  whatever else the store holds. For \<open>list_to_vec\<close> this takes the converter of the
  binding layer to leave the existing objects alone and to return a function of the
  element.
\<close>

theorem calls_keep_objects_and_return_new:
  assumes "converter_reads as_T2 conv"
    and "l < length s" and "s ! l = HostList xs"
    and "p < length s" and "s ! p = Matrix m"
  shows "call_ok s (list_to_vec_call as_T2 l s) (map_sum id Vector (list_to_vec conv xs)) \<and>
         call_ok s (C_rowmax_call p s) (map_sum id Colvec (C_rowmax m)) \<and>
         call_ok s (C_rowmax_index_call tie p s) (map_sum id Ucolvec (C_rowmax_index tie m))"
  using list_to_vec_call_ok [OF assms(1,2,3)] C_rowmax_call_ok [OF assms(4,5)]
    C_rowmax_index_call_ok [OF assms(4,5)] by blast

theorem calls_keep_objects_and_return_new_witness:
  "converter_reads as_arma_mat_call as_arma_mat \<and>
   0 < length example_store \<and>
   example_store ! 0 = HostList [NumericMatrix \<lparr>n_rows = 1, n_cols = 1, mem = [Fin 1]\<rparr>,
                                 NumericMatrix \<lparr>n_rows = 1, n_cols = 1, mem = [Fin 2]\<rparr>] \<and>
   1 < length example_store \<and>
   example_store ! 1 = Matrix \<lparr>n_rows = 1, n_cols = 2, mem = [Fin 3, Fin 4]\<rparr> \<and>
   call_ok example_store (list_to_vec_call as_arma_mat_call 0 example_store)
     (map_sum id Vector (list_to_vec as_arma_mat
        [NumericMatrix \<lparr>n_rows = 1, n_cols = 1, mem = [Fin 1]\<rparr>,
         NumericMatrix \<lparr>n_rows = 1, n_cols = 1, mem = [Fin 2]\<rparr>])) \<and>
   call_ok example_store (C_rowmax_call 1 example_store)
     (map_sum id Colvec (C_rowmax \<lparr>n_rows = 1, n_cols = 2, mem = [Fin 3, Fin 4]\<rparr>)) \<and>
   call_ok example_store (C_rowmax_index_call (\<lambda>row col. False) 1 example_store)
     (map_sum id Ucolvec (C_rowmax_index (\<lambda>row col. False) \<lparr>n_rows = 1, n_cols = 2, mem = [Fin 3, Fin 4]\<rparr>)) \<and>
   list_to_vec_call as_arma_mat_call 0 example_store =
     (Inr 2, example_store @
        [Vector [\<lparr>n_rows = 1, n_cols = 1, mem = [Fin 1]\<rparr>, \<lparr>n_rows = 1, n_cols = 1, mem = [Fin 2]\<rparr>],
         Destroyed, Destroyed]) \<and>
   C_rowmax_call 1 example_store = (Inr 3, example_store @ [Destroyed, Colvec [Fin 4]])"
proof -
  have h1: "converter_reads as_arma_mat_call as_arma_mat"
    by (rule converter_reads_as_arma_mat_call)
  have h2: "0 < length example_store" by (simp add: example_store_def)
  have h3: "example_store ! 0 = HostList [NumericMatrix \<lparr>n_rows = 1, n_cols = 1, mem = [Fin 1]\<rparr>,
                                 NumericMatrix \<lparr>n_rows = 1, n_cols = 1, mem = [Fin 2]\<rparr>]"
    by (simp add: example_store_def)
  have h4: "1 < length example_store" by (simp add: example_store_def)
  have h5: "example_store ! 1 = Matrix \<lparr>n_rows = 1, n_cols = 2, mem = [Fin 3, Fin 4]\<rparr>"
    by (simp add: example_store_def)
  have e1: "list_to_vec_call as_arma_mat_call 0 example_store =
     (Inr 2, example_store @
        [Vector [\<lparr>n_rows = 1, n_cols = 1, mem = [Fin 1]\<rparr>, \<lparr>n_rows = 1, n_cols = 1, mem = [Fin 2]\<rparr>],
         Destroyed, Destroyed])"
    by (simp add: list_to_vec_call_def example_store_def new_object_def host_list_at_def
        to_int_def vector_reserve_def as_arma_mat_call_def destroy_def push_back_def Let_def)
  have e2: "C_rowmax_call 1 example_store = (Inr 3, example_store @ [Destroyed, Colvec [Fin 4]])"
    by (simp add: C_rowmax_call_def example_store_def new_object_def matrix_at_def destroy_def
        Let_def scan_eval)
  from h1 h2 h3 h4 h5 e1 e2
    calls_keep_objects_and_return_new [OF h1 h2 h3 h4 h5, of "\<lambda>row col. False"]
  show ?thesis by blast
qed

section \<open>Properties of \<open>max_element_pos\<close>\<close>

lemma first_max_unique: "first_max xs r \<Longrightarrow> first_max xs r' \<Longrightarrow> r = r'"
proof (rule ccontr)
  assume a: "first_max xs r" "first_max xs r'" and ne: "r \<noteq> r'"
  then consider "r < r'" | "r' < r" by linarith
  then show False
  proof cases
    case 1
    with a have "xs ! r < xs ! r'" "xs ! r' \<le> xs ! r" by (auto simp: first_max_def)
    then show False by simp
  next
    case 2
    with a have "xs ! r' < xs ! r" "xs ! r \<le> xs ! r'" by (auto simp: first_max_def)
    then show False by simp
  qed
qed

lemma max_element_loop_spec:
  "largest < first \<Longrightarrow> first \<le> length xs \<Longrightarrow>
   \<forall>j<first. xs ! j \<le> xs ! largest \<Longrightarrow> \<forall>j<largest. xs ! j < xs ! largest \<Longrightarrow>
   first_max xs (max_element_loop xs largest first)"
proof (induction xs largest first rule: max_element_loop.induct)
  case (1 xs largest first)
  show ?case
  proof (cases "first < length xs")
    case False
    with "1.prems" have "first = length xs" by simp
    with False "1.prems" show ?thesis by (simp add: first_max_def)
  next
    case True
    show ?thesis
    proof (cases "xs ! largest < xs ! first")
      case gt: True
      have "first_max xs (max_element_loop xs first (Suc first))"
      proof (rule "1.IH"(1) [OF True gt])
        show "first < Suc first" by simp
        show "Suc first \<le> length xs" using True by simp
        show "\<forall>j<Suc first. xs ! j \<le> xs ! first"
          using "1.prems"(3) gt by (auto simp: less_Suc_eq intro: order.trans less_imp_le)
        show "\<forall>j<first. xs ! j < xs ! first"
          using "1.prems"(3) gt by (auto intro: le_less_trans)
      qed
      with True gt show ?thesis by simp
    next
      case le: False
      have "first_max xs (max_element_loop xs largest (Suc first))"
      proof (rule "1.IH"(2) [OF True le])
        show "largest < Suc first" using "1.prems"(1) by simp
        show "Suc first \<le> length xs" using True by simp
        show "\<forall>j<Suc first. xs ! j \<le> xs ! largest"
          using "1.prems"(3) le by (auto simp: less_Suc_eq)
        show "\<forall>j<largest. xs ! j < xs ! largest" by (rule "1.prems"(4))
      qed
      with True le show ?thesis by simp
    qed
  qed
qed

lemma std_max_element_first_max:
  assumes "xs \<noteq> []"
  shows "first_max xs (std_max_element xs)"
proof -
  from assms have "1 \<le> length xs" by (cases xs) simp_all
  then have "first_max xs (max_element_loop xs 0 1)"
    by (intro max_element_loop_spec) (simp_all add: less_Suc_eq)
  with assms show ?thesis by (simp add: std_max_element_def)
qed

lemma std_max_element_empty: "std_max_element [] = 0"
  by (simp add: std_max_element_def)

lemma max_element_pos_empty: "max_element_pos [] = 0"
  by (simp add: max_element_pos_def std_max_element_def std_distance_def to_int_def)

lemma max_element_pos_first_max:
  assumes "xs \<noteq> []" and "length xs \<le> 2147483648"
  shows "0 \<le> max_element_pos xs \<and> first_max xs (nat (max_element_pos xs))"
proof -
  from assms(1) have fm: "first_max xs (std_max_element xs)"
    by (rule std_max_element_first_max)
  then have "std_max_element xs < length xs" by (simp add: first_max_def)
  with assms(2) have "to_int (int (std_max_element xs)) = int (std_max_element xs)"
    by (intro to_int_id) simp_all
  with fm show ?thesis by (simp add: max_element_pos_def std_distance_def)
qed

text \<open>
  C9. \<open>max_element_pos\<close> is to return the position of the first occurrence of the
  largest element, and 0 for the empty range. For \<open>2^31\<close> zeros followed by a one
  the largest element is at position \<open>2^31\<close>, and the value returned as \<^verbatim>\<open>int\<close>
  is \<open>- 2^31\<close>.
\<close>

theorem max_element_pos_wraps:
  "(replicate (2 ^ 31) (0 :: int) @ [1]) ! 2147483648 = 1 \<and>
   Max (set (replicate (2 ^ 31) (0 :: int) @ [1])) = 1 \<and>
   max_element_pos (replicate (2 ^ 31) (0 :: int) @ [1]) = - 2147483648"
proof -
  let ?xs = "replicate (2 ^ 31) (0 :: int) @ [1]"
  have "first_max ?xs (2 ^ 31)"
    by (simp add: first_max_def nth_append)
  moreover have "first_max ?xs (std_max_element ?xs)"
    by (rule std_max_element_first_max) simp
  ultimately have "std_max_element ?xs = 2 ^ 31"
    by (rule first_max_unique [symmetric])
  then have "max_element_pos ?xs = - 2147483648"
    by (simp add: max_element_pos_def std_distance_def to_int_def)
  moreover have "?xs ! 2147483648 = 1"
    by (simp add: nth_append)
  moreover have "Max (set ?xs) = 1"
    by simp
  ultimately show ?thesis by blast
qed

section \<open>Properties of \<open>unique\<close>\<close>

lemma sto_irrefl: "strict_total_on lt eq S \<Longrightarrow> a \<in> S \<Longrightarrow> \<not> lt a a"
  unfolding strict_total_on_def by blast

lemma sto_trans:
  "strict_total_on lt eq S \<Longrightarrow> a \<in> S \<Longrightarrow> b \<in> S \<Longrightarrow> c \<in> S \<Longrightarrow> lt a b \<Longrightarrow> lt b c \<Longrightarrow> lt a c"
  unfolding strict_total_on_def by blast

lemma sto_total:
  "strict_total_on lt eq S \<Longrightarrow> a \<in> S \<Longrightarrow> b \<in> S \<Longrightarrow> a \<noteq> b \<Longrightarrow> lt a b \<or> lt b a"
  unfolding strict_total_on_def by blast

lemma sto_eq: "strict_total_on lt eq S \<Longrightarrow> a \<in> S \<Longrightarrow> b \<in> S \<Longrightarrow> eq a b \<longleftrightarrow> a = b"
  unfolding strict_total_on_def by blast

lemma sto_asym:
  assumes "strict_total_on lt eq S" "a \<in> S" "b \<in> S" "lt a b"
  shows "\<not> lt b a"
  using sto_trans [OF assms(1,2,3,2)] sto_irrefl [OF assms(1,2)] assms(4) by blast

text \<open>The insertion sort keeps the elements.\<close>

lemma linear_insert_split:
  "rev (dropWhile P (rev p)) @ rev (takeWhile P (rev p)) = p"
proof -
  have "rev (dropWhile P (rev p)) @ rev (takeWhile P (rev p))
      = rev (takeWhile P (rev p) @ dropWhile P (rev p))" by (simp only: rev_append)
  also have "\<dots> = rev (rev p)" by (simp only: takeWhile_dropWhile_id)
  also have "\<dots> = p" by (simp only: rev_rev_ident)
  finally show ?thesis .
qed

lemma set_unguarded_linear_insert:
  "set (unguarded_linear_insert lt val p) = insert val (set p)"
proof -
  have "set (rev (dropWhile (lt val) (rev p)) @ rev (takeWhile (lt val) (rev p))) = set p"
    by (simp only: linear_insert_split)
  then show ?thesis by (auto simp: unguarded_linear_insert_def)
qed

lemma set_insertion_step: "set (insertion_step lt p val) = insert val (set p)"
  by (simp add: insertion_step_def set_unguarded_linear_insert)

lemma insertion_step_not_Nil: "insertion_step lt p val \<noteq> []"
  by (simp add: insertion_step_def unguarded_linear_insert_def)

lemma set_foldl_insertion_step:
  "set (foldl (insertion_step lt) p xs) = set p \<union> set xs"
  by (induction xs arbitrary: p) (auto simp: set_insertion_step)

lemma set_std_sort: "set (std_sort lt v) = set v"
  by (cases v) (auto simp: std_sort_def set_foldl_insertion_step)

text \<open>Under a strict total order it leaves them in ascending order.\<close>

lemma sorted_unguarded_linear_insert:
  assumes sto: "strict_total_on lt eq S"
    and sub: "set p \<subseteq> S" and val: "val \<in> S"
    and srt: "sorted_wrt (\<lambda>a b. \<not> lt b a) p"
  shows "sorted_wrt (\<lambda>a b. \<not> lt b a) (unguarded_linear_insert lt val p)"
proof -
  define front where "front = rev (dropWhile (lt val) (rev p))"
  define bck where "bck = rev (takeWhile (lt val) (rev p))"
  have p: "front @ bck = p" unfolding front_def bck_def by (rule linear_insert_split)
  from srt have sp: "sorted_wrt (\<lambda>a b. \<not> lt b a) (front @ bck)" by (simp only: p)
  from sp have sf: "sorted_wrt (\<lambda>a b. \<not> lt b a) front"
    by (simp add: sorted_wrt_append)
  from sp have sb: "sorted_wrt (\<lambda>a b. \<not> lt b a) bck"
    by (simp add: sorted_wrt_append)
  from sp have fb: "\<not> lt b f" if "f \<in> set front" "b \<in> set bck" for f b
    using that by (simp add: sorted_wrt_append)
  have "set front \<union> set bck = set p" using p by (metis set_append)
  with sub have subf: "set front \<subseteq> S" and subb: "set bck \<subseteq> S" by blast+
  have gt: "lt val b" if "b \<in> set bck" for b
  proof -
    from that have "b \<in> set (takeWhile (lt val) (rev p))" by (simp add: bck_def)
    then show ?thesis by (rule set_takeWhileD [THEN conjunct2])
  qed
  have vb: "\<not> lt b val" if b: "b \<in> set bck" for b
  proof -
    from b subb have "b \<in> S" by blast
    with sto val show ?thesis using gt [OF b] by (rule sto_asym)
  qed
  have fv: "\<not> lt val f" if f: "f \<in> set front" for f
  proof
    assume lt: "lt val f"
    define d where "d = dropWhile (lt val) (rev p)"
    from f have fin: "f \<in> set d" by (simp add: front_def d_def)
    then obtain f0 t where d: "d = f0 # t" by (cases d) auto
    have f0: "\<not> lt val f0"
    proof -
      have "d \<noteq> []" using d by simp
      then have "\<not> lt val (hd d)" unfolding d_def by (rule hd_dropWhile)
      with d show ?thesis by simp
    qed
    have front: "front = rev t @ [f0]" by (simp add: front_def d_def [symmetric] d)
    then have f0in: "f0 \<in> set front" by simp
    from lt f0 have ne: "f \<noteq> f0" by auto
    with fin d have "f \<in> set (rev t)" by simp
    with sf front have "\<not> lt f0 f" by (simp add: sorted_wrt_append)
    moreover from f subf have fS: "f \<in> S" by blast
    moreover from f0in subf have f0S: "f0 \<in> S" by blast
    ultimately have "lt f f0" using sto_total [OF sto fS f0S ne] by blast
    with lt have "lt val f0" using sto_trans [OF sto val fS f0S] by blast
    with f0 show False by simp
  qed
  have "sorted_wrt (\<lambda>a b. \<not> lt b a) (front @ val # bck)"
    using sf sb fb vb fv by (simp add: sorted_wrt_append)
  then show ?thesis by (simp only: unguarded_linear_insert_def front_def bck_def)
qed

lemma sorted_insertion_step:
  assumes sto: "strict_total_on lt eq S"
    and sub: "set p \<subseteq> S" and val: "val \<in> S" and ne: "p \<noteq> []"
    and srt: "sorted_wrt (\<lambda>a b. \<not> lt b a) p"
  shows "sorted_wrt (\<lambda>a b. \<not> lt b a) (insertion_step lt p val)"
proof (cases "lt val (hd p)")
  case False
  with sorted_unguarded_linear_insert [OF sto sub val srt] show ?thesis
    by (simp add: insertion_step_def)
next
  case True
  from ne obtain h t where p: "p = h # t" by (cases p) auto
  with True have lt: "lt val h" by simp
  from sub p have hS: "h \<in> S" and tS: "set t \<subseteq> S" by auto
  have "\<not> lt e val" if e: "e \<in> set p" for e
  proof
    assume ev: "lt e val"
    from e sub have eS: "e \<in> S" by auto
    from ev lt have eh: "lt e h" using sto_trans [OF sto eS val hS] by blast
    show False
    proof (cases "e = h")
      case True
      with eh sto_irrefl [OF sto hS] show False by simp
    next
      case False
      with e p have "e \<in> set t" by simp
      with srt p have "\<not> lt e h" by simp
      with eh show False by simp
    qed
  qed
  with srt True show ?thesis by (simp add: insertion_step_def)
qed

lemma sorted_foldl_insertion_step:
  assumes sto: "strict_total_on lt eq S"
  shows "set p \<subseteq> S \<Longrightarrow> set xs \<subseteq> S \<Longrightarrow> p \<noteq> [] \<Longrightarrow> sorted_wrt (\<lambda>a b. \<not> lt b a) p \<Longrightarrow>
     sorted_wrt (\<lambda>a b. \<not> lt b a) (foldl (insertion_step lt) p xs)"
proof (induction xs arbitrary: p)
  case Nil
  then show ?case by simp
next
  case (Cons x xs)
  from Cons.prems have x: "x \<in> S" and xs: "set xs \<subseteq> S" by auto
  have "sorted_wrt (\<lambda>a b. \<not> lt b a) (insertion_step lt p x)"
    using sto Cons.prems(1) x Cons.prems(3,4) by (rule sorted_insertion_step)
  moreover have "set (insertion_step lt p x) \<subseteq> S"
    using Cons.prems(1) x by (simp add: set_insertion_step)
  ultimately show ?case
    using Cons.IH [OF _ xs insertion_step_not_Nil] by simp
qed

lemma sorted_std_sort:
  assumes "strict_total_on lt eq (set v)"
  shows "sorted_wrt (\<lambda>a b. \<not> lt b a) (std_sort lt v)"
proof (cases v)
  case Nil
  then show ?thesis by (simp add: std_sort_def)
next
  case (Cons x xs)
  have "sorted_wrt (\<lambda>a b. \<not> lt b a) (foldl (insertion_step lt) [x] xs)"
    using assms by (rule sorted_foldl_insertion_step) (auto simp: Cons)
  with Cons show ?thesis by (simp add: std_sort_def)
qed

text \<open>\<open>std::unique\<close> on an ascending vector.\<close>

text \<open>\<open>std::unique\<close> on an ascending vector.\<close>

lemma set_std_unique_subset: "set (std_unique eq xs) \<subseteq> set xs"
proof (induction eq xs rule: std_unique.induct)
  case (3 eq x y xs)
  show ?case
  proof (cases "eq x y")
    case True
    with "3.IH"(1) have "set (std_unique eq (x # y # xs)) \<subseteq> set (x # xs)" by simp
    then show ?thesis by auto
  next
    case False
    with "3.IH"(2) have "set (std_unique eq (x # y # xs)) \<subseteq> insert x (set (y # xs))"
      by auto
    then show ?thesis by simp
  qed
qed simp_all

lemma set_std_unique:
  "(\<And>a b. a \<in> set xs \<Longrightarrow> b \<in> set xs \<Longrightarrow> eq a b \<Longrightarrow> a = b) \<Longrightarrow> set (std_unique eq xs) = set xs"
proof (induction eq xs rule: std_unique.induct)
  case (3 eq x y xs)
  show ?case
  proof (cases "eq x y")
    case True
    then have xy: "x = y" using "3.prems" [of x y] by simp
    have "set (std_unique eq (x # xs)) = set (x # xs)"
      using True by (intro "3.IH"(1)) (auto intro: "3.prems")
    with True xy show ?thesis by simp
  next
    case False
    have "set (std_unique eq (y # xs)) = set (y # xs)"
      using False by (intro "3.IH"(2)) (auto intro: "3.prems")
    with False show ?thesis by simp
  qed
qed simp_all

lemma strictly_sorted_std_unique:
  "strict_total_on lt eq S \<Longrightarrow> set xs \<subseteq> S \<Longrightarrow> sorted_wrt (\<lambda>a b. \<not> lt b a) xs \<Longrightarrow>
     sorted_wrt lt (std_unique eq xs)"
proof (induction eq xs rule: std_unique.induct)
  case (3 eq x y xs)
  note sto = "3.prems"(1)
  from "3.prems" have xS: "x \<in> S" and yS: "y \<in> S" and xsS: "set xs \<subseteq> S" by auto
  show ?case
  proof (cases "eq x y")
    case True
    with "3.prems" "3.IH"(1) show ?thesis by simp
  next
    case False
    then have ne: "x \<noteq> y" using sto_eq [OF sto xS yS] by blast
    from "3.prems" have "\<not> lt y x" by simp
    with ne have xy: "lt x y" using sto_total [OF sto xS yS] by blast
    have all: "lt x z" if z: "z \<in> set (y # xs)" for z
    proof (cases "z = y")
      case True
      with xy show ?thesis by simp
    next
      case nz: False
      with z have zin: "z \<in> set xs" by simp
      with xsS have zS: "z \<in> S" by auto
      from "3.prems" zin have yz: "\<not> lt z y" and xz: "\<not> lt z x" by simp_all
      have "z \<noteq> x"
      proof
        assume "z = x"
        with yz xy show False by simp
      qed
      with xz show ?thesis using sto_total [OF sto xS zS] by blast
    qed
    have "sorted_wrt lt (std_unique eq (y # xs))"
      using "3.prems" False by (intro "3.IH"(2)) auto
    moreover have "\<forall>z\<in>set (std_unique eq (y # xs)). lt x z"
      using all set_std_unique_subset [of eq "y # xs"] by blast
    ultimately show ?thesis using False by simp
  qed
qed simp_all

lemma distinct_strictly_sorted:
  "sorted_wrt lt xs \<Longrightarrow> \<forall>a\<in>set xs. \<not> lt a a \<Longrightarrow> distinct xs"
  by (induction xs) auto

lemmas unique_eval = unique_def std_sort_def insertion_step_def unguarded_linear_insert_def deq_def

text \<open>
  C10, as it is stated for every vector, fails on a vector of doubles that holds a
  NaN: on \<open>[NaN, 1, NaN, 1]\<close> no comparison of the sort is true and nothing moves, no
  two neighbours are equal and nothing is erased: the vector keeps the 1 twice and
  is not in ascending order.
\<close>

theorem unique_NaN_vector:
  "unique dlt deq [NaN, Fin 1, NaN, Fin 1] = [NaN, Fin 1, NaN, Fin 1] \<and>
   \<not> distinct [NaN, Fin 1, NaN, Fin 1] \<and>
   \<not> sorted_wrt dle [NaN, Fin 1, NaN, Fin 1]"
  by (simp add: unique_eval dle_def)

text \<open>
  C10. For every vector \<open>v\<close> on whose elements \<^verbatim>\<open>operator<\<close> is a strict total order
  and \<^verbatim>\<open>operator==\<close> is equality (every vector of \<^verbatim>\<open>int\<close> or \<^verbatim>\<open>std::string\<close>, every
  vector of \<^verbatim>\<open>double\<close> without a NaN), after \<open>unique(v)\<close> the vector is in strictly
  ascending order, so it is sorted and has no two equal elements, adjacent or not,
  and it holds exactly the elements of the original vector.
\<close>

theorem unique_sorted_distinct_same_elements:
  assumes "strict_total_on op_less op_eq (set v)"
  shows "sorted_wrt op_less (unique op_less op_eq v) \<and>
         sorted_wrt (\<lambda>a b. \<not> op_less b a) (unique op_less op_eq v) \<and>
         distinct (unique op_less op_eq v) \<and>
         set (unique op_less op_eq v) = set v"
proof -
  let ?s = "std_sort op_less v" and ?u = "unique op_less op_eq v"
  have s_set: "set ?s = set v" by (rule set_std_sort)
  have srt: "sorted_wrt (\<lambda>a b. \<not> op_less b a) ?s" using assms by (rule sorted_std_sort)
  have sub: "set ?s \<subseteq> set v" by (simp add: s_set)
  have strict: "sorted_wrt op_less ?u"
    unfolding unique_def Let_def using assms sub srt by (rule strictly_sorted_std_unique)
  have u_set: "set ?u = set v"
  proof -
    have "set (std_unique op_eq ?s) = set ?s"
    proof (rule set_std_unique)
      fix a b assume "a \<in> set ?s" "b \<in> set ?s" "op_eq a b"
      with s_set show "a = b" using sto_eq [OF assms, of a b] by simp
    qed
    with s_set show ?thesis by (simp add: unique_def)
  qed
  have irr: "\<forall>a\<in>set ?u. \<not> op_less a a"
    using u_set sto_irrefl [OF assms] by blast
  from strict irr have dist: "distinct ?u" by (rule distinct_strictly_sorted)
  have "sorted_wrt (\<lambda>a b. \<not> op_less b a) ?u"
  proof (rule sorted_wrt_mono_rel [OF _ strict])
    fix a b assume "a \<in> set ?u" "b \<in> set ?u" "op_less a b"
    with u_set show "\<not> op_less b a" using sto_asym [OF assms, of a b] by simp
  qed
  with strict dist u_set show ?thesis by blast
qed

theorem unique_sorted_distinct_same_elements_witness:
  "strict_total_on dlt deq (set [Fin 3, NegInf, Fin 1, Fin 3]) \<and>
   sorted_wrt dlt (unique dlt deq [Fin 3, NegInf, Fin 1, Fin 3]) \<and>
   distinct (unique dlt deq [Fin 3, NegInf, Fin 1, Fin 3]) \<and>
   set (unique dlt deq [Fin 3, NegInf, Fin 1, Fin 3]) = set [Fin 3, NegInf, Fin 1, Fin 3] \<and>
   unique dlt deq [Fin 3, NegInf, Fin 1, Fin 3] = [NegInf, Fin 1, Fin 3]"
proof -
  have h: "strict_total_on dlt deq (set [Fin 3, NegInf, Fin 1, Fin 3])"
    by (rule strict_total_on_dlt) simp
  have e: "unique dlt deq [Fin 3, NegInf, Fin 1, Fin 3] = [NegInf, Fin 1, Fin 3]"
    by (simp add: unique_eval)
  from h e unique_sorted_distinct_same_elements [OF h] show ?thesis by blast
qed

text \<open>
  The two cases of it: the types with a linear order, and the doubles without NaN.
\<close>

lemma unique_linorder:
  fixes v :: "'a::linorder list"
  shows "sorted (unique (<) (=) v) \<and> sorted_wrt (<) (unique (<) (=) v) \<and>
     distinct (unique (<) (=) v) \<and> set (unique (<) (=) v) = set v"
  using unique_sorted_distinct_same_elements [OF strict_total_on_linorder, of v]
  by (simp add: strict_sorted_iff)

lemma unique_double_without_NaN:
  assumes "NaN \<notin> set v"
  shows "sorted_wrt dlt (unique dlt deq v) \<and> distinct (unique dlt deq v) \<and>
     set (unique dlt deq v) = set v"
  using unique_sorted_distinct_same_elements [OF strict_total_on_dlt [OF assms]] by blast

end
